theory Spec2Isabelle
  imports Complex_Main "HOL-Library.Sublist"
begin

section \<open>Strings\<close>

text \<open>
  A JavaScript string is modelled as a \<^typ>\<open>string\<close>, one \<^typ>\<open>char\<close> per code unit.
  The model covers ASCII text: \<open>toLowerCase\<close> maps \<open>A\<close>..\<open>Z\<close> to \<open>a\<close>..\<open>z\<close> and
  leaves every other character alone, and the white space of \<open>trim\<close> and of the
  regular expression class \<open>\s\<close> is the ASCII white space.
\<close>

definition is_space :: "char \<Rightarrow> bool" where
  "is_space c = (c \<in> set [CHR '' '', CHR 0x09, CHR 0x0A, CHR 0x0B, CHR 0x0C, CHR 0x0D])"

definition trim :: "string \<Rightarrow> string" where
  "trim s = rev (dropWhile is_space (rev (dropWhile is_space s)))"

definition lower_table :: "(char \<times> char) list" where
  "lower_table = zip ''ABCDEFGHIJKLMNOPQRSTUVWXYZ'' ''abcdefghijklmnopqrstuvwxyz''"

definition lower_char :: "char \<Rightarrow> char" where
  "lower_char c = (case map_of lower_table c of Some d \<Rightarrow> d | None \<Rightarrow> c)"

definition toLowerCase :: "string \<Rightarrow> string" where
  "toLowerCase s = map lower_char s"

text \<open>\<open>s.includes(k)\<close>: \<open>k\<close> occurs in \<open>s\<close> as a contiguous run of code units.\<close>

fun includes_str :: "string \<Rightarrow> string \<Rightarrow> bool" where
  "includes_str [] k = (k = [])"
| "includes_str (c # cs) k = (prefix k (c # cs) \<or> includes_str cs k)"

text \<open>\<open>s.indexOf(k)\<close>: the least position where \<open>k\<close> occurs, \<open>-1\<close> when it does not.\<close>

fun indexOf :: "string \<Rightarrow> string \<Rightarrow> int" where
  "indexOf [] k = (if k = [] then 0 else - 1)"
| "indexOf (c # cs) k =
     (if prefix k (c # cs) then 0
      else (let i = indexOf cs k in if i = - 1 then - 1 else i + 1))"

text \<open>\<open>s.substring(a, b)\<close> swaps its arguments when \<open>a > b\<close> and clamps them to the length.\<close>

definition substring :: "string \<Rightarrow> nat \<Rightarrow> nat \<Rightarrow> string" where
  "substring s a b = (let lo = min a b; hi = max a b in take (hi - lo) (drop lo s))"

text \<open>
  \<open>s.replace(/<[^>]+>/g, '')\<close>. At a \<open><\<close> the greedy class \<open>[^>]+\<close> takes every
  character up to the next \<open>>\<close>; the match succeeds when it took at least one character
  and a \<open>>\<close> follows. \<open>match_tag\<close> is applied to the text after the \<open><\<close> and returns
  what is left after the closing \<open>>\<close>. After a match the scan goes on behind it, after
  a failure at the next character.
\<close>

definition match_tag :: "string \<Rightarrow> string option" where
  "match_tag cs =
     (let body = takeWhile (\<lambda>c. c \<noteq> CHR ''>'') cs;
          rest = dropWhile (\<lambda>c. c \<noteq> CHR ''>'') cs
      in if body \<noteq> [] \<and> rest \<noteq> [] then Some (tl rest) else None)"

function strip_tags :: "string \<Rightarrow> string" where
  "strip_tags [] = []"
| "strip_tags (c # cs) =
     (if c = CHR ''<'' then
        (case match_tag cs of
           Some rest \<Rightarrow> strip_tags rest
         | None \<Rightarrow> c # strip_tags cs)
      else c # strip_tags cs)"
  by pat_completeness auto
termination
proof (relation "measure length")
  fix c :: char and cs rest :: string
  assume "match_tag cs = Some rest"
  then have "rest = tl (dropWhile (\<lambda>c. c \<noteq> CHR ''>'') cs)"
    by (simp add: match_tag_def Let_def split: if_splits)
  moreover have "length (dropWhile (\<lambda>c. c \<noteq> CHR ''>'') cs) \<le> length cs"
    by (rule length_dropWhile_le)
  ultimately show "(rest, c # cs) \<in> measure length"
    by simp
qed simp_all

text \<open>Whether the pattern \<open><[^>]+>\<close> matches somewhere in a string.\<close>

fun has_tag :: "string \<Rightarrow> bool" where
  "has_tag [] = False"
| "has_tag (c # cs) = ((c = CHR ''<'' \<and> match_tag cs \<noteq> None) \<or> has_tag cs)"

section \<open>Documents and the search index\<close>

text \<open>
  A record of \<open>search.json\<close>, with its fields \<open>title\<close>, \<open>content\<close> and \<open>url\<close>
  (here \<open>raw_title\<close>, \<open>raw_content\<close>, \<open>raw_url\<close>); title and content may be missing.
  An entry of the index has the fields \<open>preprocessSearchData\<close> gives it, \<open>ident\<close>
  being its \<open>id\<close>.
\<close>

record document =
  raw_title :: "string option"
  raw_content :: "string option"
  raw_url :: string

record indexed =
  ident :: nat
  title :: string
  content :: string
  url :: string
  titleLower :: string
  contentLower :: string
  weight :: rat

text \<open>\<open>x || d\<close> on an optional string: a missing and an empty string are both falsy.\<close>

definition or_else :: "string option \<Rightarrow> string \<Rightarrow> string" where
  "or_else x d = (case x of None \<Rightarrow> d | Some s \<Rightarrow> if s = [] then d else s)"

text \<open>
  Weights and scores are JavaScript numbers; they are modelled as exact rationals, so the
  rounding of the floating-point sums is outside the model.
\<close>

definition calculateWeight :: "document \<Rightarrow> rat" where
  "calculateWeight item =
     (let w0 = 1;
          w1 = (if (case raw_title item of None \<Rightarrow> False | Some t \<Rightarrow> t \<noteq> [] \<and> 10 < length t)
                then w0 + 1 / 10 else w0);
          contentLength = length (or_else (raw_content item) []);
          w2 = (if 500 < contentLength then w1 + 2 / 10 else w1);
          w3 = (if 1000 < contentLength then w2 + 3 / 10 else w2)
      in w3)"

definition preprocessItem :: "nat \<Rightarrow> document \<Rightarrow> indexed" where
  "preprocessItem index item =
     \<lparr> ident = index,
       title = or_else (raw_title item) ''Untitled'',
       content = strip_tags (or_else (raw_content item) []),
       url = raw_url item,
       titleLower = toLowerCase (or_else (raw_title item) []),
       contentLower = toLowerCase (strip_tags (or_else (raw_content item) [])),
       weight = calculateWeight item \<rparr>"

definition preprocessSearchData :: "document list \<Rightarrow> indexed list" where
  "preprocessSearchData data = map (\<lambda>(index, item). preprocessItem index item) (enumerate 0 data)"

section \<open>Configuration\<close>

text \<open>
  The constructor builds \<open>this.options\<close> as
  \<open>{searchPath: options.searchPath || '/search.json', ..., ...options}\<close>. The spread comes
  last, so a property the caller supplies always wins, also a falsy one such as
  \<open>maxResults: 0\<close>; the default is taken when the property is absent. \<open>maxResults\<close>,
  \<open>minQueryLength\<close> and \<open>debounceTime\<close> are counts, modelled as natural numbers.
  \<open>preload\<close> is read as \<open>this.options.preload !== false\<close>.
\<close>

record user_options =
  u_searchPath :: "string option"
  u_inputId :: "string option"
  u_resultId :: "string option"
  u_debounceTime :: "nat option"
  u_maxResults :: "nat option"
  u_minQueryLength :: "nat option"
  u_preload :: "bool option"

record options =
  searchPath :: string
  inputId :: string
  resultId :: string
  debounceTime :: nat
  maxResults :: nat
  minQueryLength :: nat
  preload :: bool

definition mk_options :: "user_options \<Rightarrow> options" where
  "mk_options u =
     \<lparr> searchPath = (case u_searchPath u of None \<Rightarrow> ''/search.json'' | Some v \<Rightarrow> v),
       inputId = (case u_inputId u of None \<Rightarrow> ''local-search-input'' | Some v \<Rightarrow> v),
       resultId = (case u_resultId u of None \<Rightarrow> ''local-search-result'' | Some v \<Rightarrow> v),
       debounceTime = (case u_debounceTime u of None \<Rightarrow> 300 | Some v \<Rightarrow> v),
       maxResults = (case u_maxResults u of None \<Rightarrow> 50 | Some v \<Rightarrow> v),
       minQueryLength = (case u_minQueryLength u of None \<Rightarrow> 2 | Some v \<Rightarrow> v),
       preload = (u_preload u \<noteq> Some False) \<rparr>"

definition no_options :: user_options where
  "no_options =
     \<lparr> u_searchPath = None, u_inputId = None, u_resultId = None, u_debounceTime = None,
       u_maxResults = None, u_minQueryLength = None, u_preload = None \<rparr>"

section \<open>The query processor\<close>

subsection \<open>Tokens\<close>

text \<open>
  \<open>query.toLowerCase().split(/[\s\-]+/).filter(k => k.length > 0)\<close>. \<open>js_split cur cs\<close>
  cuts \<open>cs\<close> at every maximal run of separators, \<open>cur\<close> being the piece read so far;
  like \<open>split\<close> it yields an empty piece before a leading and after a trailing run.
\<close>

definition is_sep :: "char \<Rightarrow> bool" where
  "is_sep c = (is_space c \<or> c = CHR ''-'')"

function js_split :: "string \<Rightarrow> string \<Rightarrow> string list" where
  "js_split cur [] = [cur]"
| "js_split cur (c # cs) =
     (if is_sep c then cur # js_split [] (dropWhile is_sep cs)
      else js_split (cur @ [c]) cs)"
  by pat_completeness auto
termination
  by (relation "measure (\<lambda>(cur, cs). length cs)")
     (auto simp: less_Suc_eq_le length_dropWhile_le)

definition keywords_of :: "string \<Rightarrow> string list" where
  "keywords_of query = filter (\<lambda>k. 0 < length k) (js_split [] (toLowerCase query))"

subsection \<open>Scoring\<close>

text \<open>
  The body of the loop of \<open>calculateMatchScore\<close>, on the triple
  \<open>(score, titleMatches, contentMatches)\<close>.
\<close>

definition score_step :: "indexed \<Rightarrow> string \<Rightarrow> rat \<times> nat \<times> nat \<Rightarrow> rat \<times> nat \<times> nat" where
  "score_step item keyword acc =
     (case acc of (score, titleMatches, contentMatches) \<Rightarrow>
        (let (score1, titleMatches1) =
               (if includes_str (titleLower item) keyword then
                  (let s = score + 10 * weight item
                   in (if titleLower item = keyword then s + 20 else s, titleMatches + 1))
                else (score, titleMatches));
             (score2, contentMatches1) =
               (if includes_str (contentLower item) keyword then
                  (score1 + 1 * weight item, contentMatches + 1)
                else (score1, contentMatches))
         in (score2, titleMatches1, contentMatches1)))"

definition calculateMatchScore :: "indexed \<Rightarrow> string list \<Rightarrow> rat" where
  "calculateMatchScore item keywords =
     (case fold (score_step item) keywords (0, 0, 0) of
        (score, titleMatches, contentMatches) \<Rightarrow>
          if titleMatches = 0 \<and> contentMatches = 0 then 0
          else score * (of_nat (titleMatches + contentMatches) / of_nat (length keywords)))"

text \<open>
  The formula of the specification, written from its words: per token \<open>10 \<times> weight\<close>
  for a title match, a flat \<open>20\<close> more when the title is the token, \<open>1 \<times> weight\<close>
  for a content match; the sum times the coverage, or \<open>0\<close> when nothing matched.
\<close>

definition spec_token_score :: "indexed \<Rightarrow> string \<Rightarrow> rat" where
  "spec_token_score item k =
     (if includes_str (titleLower item) k
      then 10 * weight item + (if titleLower item = k then 20 else 0) else 0)
     + (if includes_str (contentLower item) k then 1 * weight item else 0)"

definition spec_title_matches :: "indexed \<Rightarrow> string list \<Rightarrow> nat" where
  "spec_title_matches item ks = length (filter (includes_str (titleLower item)) ks)"

definition spec_content_matches :: "indexed \<Rightarrow> string list \<Rightarrow> nat" where
  "spec_content_matches item ks = length (filter (includes_str (contentLower item)) ks)"

definition spec_score :: "indexed \<Rightarrow> string list \<Rightarrow> rat" where
  "spec_score item ks =
     (if spec_title_matches item ks = 0 \<and> spec_content_matches item ks = 0 then 0
      else (\<Sum>k\<leftarrow>ks. spec_token_score item k)
           * (of_nat (spec_title_matches item ks + spec_content_matches item ks)
              / of_nat (length ks)))"

subsection \<open>Highlighting\<close>

text \<open>
  \<open>text.replace(new RegExp('(' + escapeRegExp(keyword) + ')', 'gi'), '<mark ...>$1</mark>')\<close>:
  the escaped keyword matches itself literally, the flag \<open>i\<close> ignores case, the flag
  \<open>g\<close> replaces every match from left to right, each by the matched text inside the
  marker. Keywords are never empty (\<open>keywords_of\<close> drops the empty ones).
\<close>

definition mark_open :: string where
  \<open>mark_open = ''<mark class="search-highlight">''\<close>

definition mark_close :: string where
  "mark_close = ''</mark>''"

definition ci_prefix :: "string \<Rightarrow> string \<Rightarrow> bool" where
  "ci_prefix k t = (length k \<le> length t \<and> toLowerCase (take (length k) t) = toLowerCase k)"

function mark_all :: "string \<Rightarrow> string \<Rightarrow> string" where
  "mark_all k [] = []"
| "mark_all k (c # cs) =
     (if k \<noteq> [] \<and> ci_prefix k (c # cs)
      then mark_open @ take (length k) (c # cs) @ mark_close
             @ mark_all k (drop (length k) (c # cs))
      else c # mark_all k cs)"
  by pat_completeness auto
termination
  by (relation "measure (\<lambda>(k, t). length t)") auto

definition highlightKeywords :: "string \<Rightarrow> string list \<Rightarrow> string" where
  "highlightKeywords text keywords = fold mark_all keywords text"

definition firstMatch :: "indexed \<Rightarrow> string list \<Rightarrow> int" where
  "firstMatch item keywords =
     fold (\<lambda>keyword firstMatchIndex.
             (let index = indexOf (contentLower item) keyword
              in if index \<noteq> - 1 \<and> (firstMatchIndex = - 1 \<or> index < firstMatchIndex)
                 then index else firstMatchIndex))
          keywords (- 1)"

definition getHighlightedExcerpt :: "indexed \<Rightarrow> string list \<Rightarrow> nat \<Rightarrow> string" where
  "getHighlightedExcerpt item keywords maxLength =
     (if content item = [] then []
      else
        (let firstMatchIndex = firstMatch item keywords
         in if firstMatchIndex = - 1
            then highlightKeywords (substring (content item) 0 maxLength) keywords @ ''...''
            else
              (let start = nat (max 0 (firstMatchIndex - 50));
                   endpos = min (length (content item)) (start + maxLength);
                   excerpt = substring (content item) start endpos;
                   excerpt1 = (if 0 < start then ''...'' @ excerpt else excerpt);
                   excerpt2 = (if endpos < length (content item) then excerpt1 @ ''...''
                               else excerpt1)
               in highlightKeywords excerpt2 keywords)))"

subsection \<open>Searching\<close>

record result = indexed +
  matchScore :: rat
  highlightedTitle :: string
  highlightedContent :: string

definition mkResult :: "indexed \<Rightarrow> rat \<Rightarrow> string list \<Rightarrow> result" where
  "mkResult item s keywords =
     \<lparr> ident = ident item, title = title item, content = content item, url = url item,
       titleLower = titleLower item, contentLower = contentLower item, weight = weight item,
       matchScore = s,
       highlightedTitle = highlightKeywords (title item) keywords,
       highlightedContent = getHighlightedExcerpt item keywords 150 \<rparr>"

text \<open>
  The loop of \<open>performSearch\<close>. Beside \<open>results\<close> it returns \<open>scored\<close>, the documents
  on which \<open>calculateMatchScore\<close> was called, in order: a trace the source does not keep,
  added to state which documents the loop reaches. The test that ends the loop stands
  after the push, so it is made once a document has been scored.
\<close>

fun scanIndex ::
  "options \<Rightarrow> string list \<Rightarrow> indexed list \<Rightarrow> result list \<times> indexed list
     \<Rightarrow> result list \<times> indexed list" where
  "scanIndex opts keywords [] (results, scored) = (results, scored)"
| "scanIndex opts keywords (item # rest) (results, scored) =
     (let s = calculateMatchScore item keywords;
          results1 = (if 0 < s then results @ [mkResult item s keywords] else results);
          scored1 = scored @ [item]
      in if maxResults opts * 2 \<le> length results1 then (results1, scored1)
         else scanIndex opts keywords rest (results1, scored1))"

text \<open>
  \<open>results.sort(cmp)\<close>: \<open>Array.prototype.sort\<close> is a stable sort (ECMAScript 2019), here
  an insertion sort driven by the sign of the comparator, which keeps the order of the
  elements the comparator calls equal.
\<close>

fun js_insert :: "('a \<Rightarrow> 'a \<Rightarrow> rat) \<Rightarrow> 'a \<Rightarrow> 'a list \<Rightarrow> 'a list" where
  "js_insert cmp x [] = [x]"
| "js_insert cmp x (y # ys) = (if cmp x y \<le> 0 then x # y # ys else y # js_insert cmp x ys)"

definition js_sort :: "('a \<Rightarrow> 'a \<Rightarrow> rat) \<Rightarrow> 'a list \<Rightarrow> 'a list" where
  "js_sort cmp xs = foldr (js_insert cmp) xs []"

definition byScore :: "result \<Rightarrow> result \<Rightarrow> rat" where
  "byScore a b = matchScore b - matchScore a"

definition performSearch :: "options \<Rightarrow> string \<Rightarrow> indexed list \<Rightarrow> result list" where
  "performSearch opts query searchIndex =
     (let keywords = keywords_of query;
          results = fst (scanIndex opts keywords searchIndex ([], []));
          sorted_results = js_sort byScore results
      in take (maxResults opts) sorted_results)"

section \<open>The widget\<close>

subsection \<open>State\<close>

text \<open>
  What the results container shows: \<open>innerHTML\<close> is one of five templates, kept here
  with the data the template is filled with instead of the HTML text.
\<close>

datatype view = Blank | LoadingView | ErrorView | EmptyView string | ResultsView "result list"

datatype js_error = AbortError | HttpError nat | SyntaxError | TypeError

datatype log_entry = ConsoleLog string | ConsoleWarn string | ConsoleError string js_error

text \<open>
  The fields of an \<open>EnhancedSearch\<close> object. \<open>inputElement\<close> holds the value of the input
  element and \<open>resultElement\<close> the content of the container, \<open>None\<close> when
  \<open>getElementById\<close> found no element. \<open>abortController\<close> is \<open>None\<close> for \<open>null\<close> and
  otherwise tells whether \<open>abort()\<close> was called. \<open>console\<close> collects the console output.
  \<open>fetches\<close> and \<open>scorings\<close> are counters the source does not keep: the number of calls
  of \<open>fetch\<close> and of \<open>performSearch\<close>.
\<close>

record widget =
  options :: options
  inputElement :: "string option"
  resultElement :: "view option"
  searchIndex :: "indexed list option"
  searchCache :: "string \<rightharpoonup> result list"
  isLoading :: bool
  currentQuery :: string
  abortController :: "bool option"
  console :: "log_entry list"
  fetches :: nat
  scorings :: nat

subsection \<open>The result view\<close>

definition setView :: "view \<Rightarrow> widget \<Rightarrow> widget" where
  "setView v st = (case resultElement st of None \<Rightarrow> st | Some _ \<Rightarrow> st\<lparr>resultElement := Some v\<rparr>)"

definition showLoadingState :: "widget \<Rightarrow> widget" where
  "showLoadingState st = setView LoadingView st"

definition showEmptyState :: "string \<Rightarrow> widget \<Rightarrow> widget" where
  "showEmptyState query st = setView (EmptyView query) st"

definition showErrorState :: "widget \<Rightarrow> widget" where
  "showErrorState st = setView ErrorView st"

definition clearResults :: "widget \<Rightarrow> widget" where
  "clearResults st = setView Blank st"

definition displayResults :: "result list \<Rightarrow> string \<Rightarrow> widget \<Rightarrow> widget" where
  "displayResults results query st =
     (if length results = 0 then showEmptyState query st else setView (ResultsView results) st)"

definition clearSearch :: "widget \<Rightarrow> widget" where
  "clearSearch st =
     (let st1 = (case inputElement st of None \<Rightarrow> st | Some _ \<Rightarrow> st\<lparr>inputElement := Some []\<rparr>)
      in (clearResults st1)\<lparr>currentQuery := []\<rparr>)"

definition handleKeyNavigation :: "string \<Rightarrow> widget \<Rightarrow> widget" where
  "handleKeyNavigation key st = (if key = ''Escape'' then clearSearch st else st)"

definition destroy :: "widget \<Rightarrow> widget" where
  "destroy st =
     (let st1 = (case abortController st of None \<Rightarrow> st
                 | Some _ \<Rightarrow> st\<lparr>abortController := Some True\<rparr>)
      in st1\<lparr>searchCache := Map.empty, searchIndex := None\<rparr>)"

subsection \<open>The index loader\<close>

text \<open>
  \<open>loadSearchIndex\<close> is an \<open>async\<close> function. It runs to its first \<open>await\<close>
  (\<open>loadSearchIndex_begin\<close>) and goes on when what it waits for arrives: the fetch and the
  body of the response (\<open>loadSearchIndex_settle\<close>), or the 100 ms timer of the waiting loop
  (\<open>loadSearchIndex_wake\<close>). What the network does is an input of the model.
\<close>

datatype json_outcome = JsonData "document list" | JsonNotArray | JsonFails js_error

datatype fetch_outcome = FetchFails js_error | FetchResponse nat json_outcome

definition response_ok :: "nat \<Rightarrow> bool" where
  "response_ok status = (200 \<le> status \<and> status \<le> 299)"

text \<open>
  What the two \<open>await\<close>s of the \<open>try\<close> block yield: the rejection of \<open>fetch\<close>, the error
  thrown for a response that is not \<open>ok\<close>, the rejection of \<open>response.json()\<close>, the
  \<open>TypeError\<close> of \<open>data.map\<close> on a value that is no array, or the data. The loader reads
  no field of the widget between the two \<open>await\<close>s, so they are taken in one step.
\<close>

definition fetch_result :: "fetch_outcome \<Rightarrow> js_error + document list" where
  "fetch_result out =
     (case out of
        FetchFails e \<Rightarrow> Inl e
      | FetchResponse status body \<Rightarrow>
          if \<not> response_ok status then Inl (HttpError status)
          else (case body of
                  JsonFails e \<Rightarrow> Inl e
                | JsonNotArray \<Rightarrow> Inl TypeError
                | JsonData data \<Rightarrow> Inr data))"

datatype load_entry = Ready "indexed list" | MustWait | Fetching

definition loadSearchIndex_begin :: "widget \<Rightarrow> load_entry \<times> widget" where
  "loadSearchIndex_begin st =
     (case searchIndex st of
        Some idx \<Rightarrow> (Ready idx, st)
      | None \<Rightarrow>
          if isLoading st then (MustWait, st)
          else (Fetching,
                (showLoadingState (st\<lparr>isLoading := True\<rparr>))
                  \<lparr>abortController := Some False, fetches := fetches st + 1\<rparr>))"

definition loadSearchIndex_settle ::
  "widget \<Rightarrow> fetch_outcome \<Rightarrow> (js_error + indexed list option) \<times> widget" where
  "loadSearchIndex_settle st out =
     (let (r, st1) =
            (case fetch_result out of
               Inr data \<Rightarrow>
                 (let idx = preprocessSearchData data
                  in (Inr (Some idx), st\<lparr>searchIndex := Some idx\<rparr>))
             | Inl error \<Rightarrow>
                 if error = AbortError
                 then (Inr None,
                       st\<lparr>console := console st @ [ConsoleLog ''Search index loading cancelled'']\<rparr>)
                 else (Inl error,
                       showErrorState
                         (st\<lparr>console := console st
                               @ [ConsoleError ''Failed to load search index:'' error]\<rparr>)))
      in (r, st1\<lparr>isLoading := False, abortController := None\<rparr>))"

text \<open>
  One turn of \<open>while (this.isLoading) await ...\<close>: \<open>None\<close> when the caller keeps waiting,
  otherwise what it returns, \<open>this.searchIndex\<close>.
\<close>

definition loadSearchIndex_wake :: "widget \<Rightarrow> indexed list option option" where
  "loadSearchIndex_wake st = (if isLoading st then None else Some (searchIndex st))"

subsection \<open>Searching and preloading\<close>

text \<open>
  An \<open>async\<close> handler either settles, its promise fulfilled (\<open>Inr\<close>) or rejected
  (\<open>Inl\<close>), or is suspended in the loader, on the fetch it started or in the waiting loop.
  Awaiting the loader when the index is there resumes in the next microtask, before any
  other event is handled, and is taken as one step.
\<close>

datatype caller = Preload | Search string

datatype wait = OnFetch | OnIdle

datatype progress = Settled "js_error + unit" widget | Pending wait caller widget

text \<open>The \<open>try\<close> block of \<open>handleSearch\<close> from the result of the loader on.\<close>

definition handleSearch_try ::
  "widget \<Rightarrow> string \<Rightarrow> js_error + indexed list option \<Rightarrow> js_error + widget" where
  "handleSearch_try st query r =
     (case r of
        Inl error \<Rightarrow> Inl error
      | Inr None \<Rightarrow> Inr st
      | Inr (Some idx) \<Rightarrow>
          if currentQuery st \<noteq> query then Inr st
          else
            (let results = performSearch (options st) query idx;
                 st1 = st\<lparr>searchCache := (searchCache st)(query \<mapsto> results),
                          scorings := scorings st + 1\<rparr>
             in Inr (if currentQuery st1 = query then displayResults results query st1
                     else st1)))"

definition handleSearch_resume ::
  "widget \<Rightarrow> string \<Rightarrow> js_error + indexed list option \<Rightarrow> (js_error + unit) \<times> widget" where
  "handleSearch_resume st query r =
     (case handleSearch_try st query r of
        Inr st1 \<Rightarrow> (Inr (), st1)
      | Inl error \<Rightarrow>
          (Inr (), showErrorState (st\<lparr>console := console st
                                        @ [ConsoleError ''Search failed:'' error]\<rparr>)))"

definition handleSearch_begin :: "widget \<Rightarrow> string \<Rightarrow> progress" where
  "handleSearch_begin st val =
     (let query = trim val
      in if length query < minQueryLength (options st) then Settled (Inr ()) (clearResults st)
         else
           (let st1 = st\<lparr>currentQuery := query\<rparr>
            in case searchCache st1 query of
                 Some results \<Rightarrow> Settled (Inr ()) (displayResults results query st1)
               | None \<Rightarrow>
                   (case loadSearchIndex_begin st1 of
                      (Ready idx, st2) \<Rightarrow>
                        (case handleSearch_resume st2 query (Inr (Some idx)) of
                           (r, st3) \<Rightarrow> Settled r st3)
                    | (MustWait, st2) \<Rightarrow> Pending OnIdle (Search query) st2
                    | (Fetching, st2) \<Rightarrow> Pending OnFetch (Search query) st2)))"

definition preloadSearchIndex_resume ::
  "widget \<Rightarrow> js_error + indexed list option \<Rightarrow> (js_error + unit) \<times> widget" where
  "preloadSearchIndex_resume st r =
     (case r of
        Inr _ \<Rightarrow> (Inr (), st)
      | Inl error \<Rightarrow>
          (Inr (), st\<lparr>console := console st
                        @ [ConsoleLog ''Search index preload failed, will load on demand'']\<rparr>))"

definition preloadSearchIndex_begin :: "widget \<Rightarrow> progress" where
  "preloadSearchIndex_begin st =
     (if preload (options st) then
        (case loadSearchIndex_begin st of
           (Ready idx, st1) \<Rightarrow>
             (case preloadSearchIndex_resume st1 (Inr (Some idx)) of (r, st2) \<Rightarrow> Settled r st2)
         | (MustWait, st1) \<Rightarrow> Pending OnIdle Preload st1
         | (Fetching, st1) \<Rightarrow> Pending OnFetch Preload st1)
      else Settled (Inr ()) st)"

subsection \<open>The page: the widget, its suspended handlers and the events\<close>

text \<open>
  The event loop runs one handler at a time. \<open>inflight\<close> is the caller that started the
  fetch and waits for it, \<open>sleeping\<close> are the callers in the waiting loop of the loader,
  \<open>unhandled\<close> collects the rejections of handler promises, which nothing catches.
\<close>

record page =
  widget :: widget
  inflight :: "caller option"
  sleeping :: "caller list"
  unhandled :: "js_error list"

definition absorb :: "page \<Rightarrow> progress \<Rightarrow> page" where
  "absorb s p =
     (case p of
        Settled r st \<Rightarrow>
          s\<lparr>widget := st,
            unhandled := (case r of Inl e \<Rightarrow> unhandled s @ [e] | Inr _ \<Rightarrow> unhandled s)\<rparr>
      | Pending OnFetch c st \<Rightarrow> s\<lparr>widget := st, inflight := Some c\<rparr>
      | Pending OnIdle c st \<Rightarrow> s\<lparr>widget := st, sleeping := sleeping s @ [c]\<rparr>)"

definition resume :: "caller \<Rightarrow> widget \<Rightarrow> js_error + indexed list option \<Rightarrow> progress" where
  "resume c st r =
     (case (case c of Preload \<Rightarrow> preloadSearchIndex_resume st r
                    | Search query \<Rightarrow> handleSearch_resume st query r) of
        (res, st1) \<Rightarrow> Settled res st1)"

text \<open>
  \<open>Input v\<close>: the input element holds \<open>v\<close> and the debounced listener calls
  \<open>handleSearch\<close>, which reads \<open>event.target.value\<close> (the delay of the debounce itself is
  not modelled). \<open>KeyDown\<close> and \<open>Click\<close> are the two other listeners; all three are
  registered only when the input element exists. \<open>Destroy\<close> is a call of \<open>destroy()\<close>.
  \<open>FetchSettles\<close> ends the fetch in flight and lets its caller go on; \<open>TimerFires i\<close>
  is the timer of the \<open>i\<close>-th caller in the waiting loop.
\<close>

datatype event =
  Input string | KeyDown string | Click string | Destroy
  | FetchSettles fetch_outcome | TimerFires nat

definition step :: "page \<Rightarrow> event \<Rightarrow> page" where
  "step s ev =
     (case ev of
        Input v \<Rightarrow>
          (case inputElement (widget s) of
             None \<Rightarrow> s
           | Some _ \<Rightarrow> absorb s (handleSearch_begin ((widget s)\<lparr>inputElement := Some v\<rparr>) v))
      | KeyDown key \<Rightarrow>
          (case inputElement (widget s) of
             None \<Rightarrow> s
           | Some _ \<Rightarrow> s\<lparr>widget := handleKeyNavigation key (widget s)\<rparr>)
      | Click target \<Rightarrow>
          (case inputElement (widget s) of
             None \<Rightarrow> s
           | Some _ \<Rightarrow>
               if target = ''local-search-close'' then s\<lparr>widget := clearSearch (widget s)\<rparr>
               else s)
      | Destroy \<Rightarrow> s\<lparr>widget := destroy (widget s)\<rparr>
      | FetchSettles out \<Rightarrow>
          (case inflight s of
             None \<Rightarrow> s
           | Some c \<Rightarrow>
               (case loadSearchIndex_settle (widget s) out of
                  (r, st1) \<Rightarrow> absorb (s\<lparr>inflight := None\<rparr>) (resume c st1 r)))
      | TimerFires i \<Rightarrow>
          if i < length (sleeping s) then
            (case loadSearchIndex_wake (widget s) of
               None \<Rightarrow> s
             | Some r \<Rightarrow>
                 absorb (s\<lparr>sleeping := take i (sleeping s) @ drop (Suc i) (sleeping s)\<rparr>)
                   (resume (sleeping s ! i) (widget s) (Inr r)))
          else s)"

definition run :: "page \<Rightarrow> event list \<Rightarrow> page" where
  "run s evs = foldl step s evs"

text \<open>
  \<open>new EnhancedSearch(options)\<close>, given what \<open>getElementById\<close> finds for the two ids:
  the fields are set, the elements bound and the preload started.
\<close>

definition construct :: "user_options \<Rightarrow> string option \<Rightarrow> view option \<Rightarrow> page" where
  "construct u input_el result_el =
     (let st0 = \<lparr> options = mk_options u, inputElement = input_el, resultElement = result_el,
                   searchIndex = None, searchCache = Map.empty, isLoading = False,
                   currentQuery = [], abortController = None,
                   console = (if input_el = None \<or> result_el = None
                              then [ConsoleWarn ''Enhanced Search: Required elements not found'']
                              else []),
                   fetches = 0, scorings = 0 \<rparr>
      in absorb \<lparr> widget = st0, inflight = None, sleeping = [], unhandled = [] \<rparr>
           (preloadSearchIndex_begin st0))"

section \<open>Example data\<close>

definition example_docs :: "document list" where
  "example_docs =
     [\<lparr>raw_title = Some ''Go'', raw_content = Some ''<p>Learn Go</p>'', raw_url = ''/a''\<rparr>,
      \<lparr>raw_title = None, raw_content = Some ''go on'', raw_url = ''/b''\<rparr>,
      \<lparr>raw_title = Some ''Rust'', raw_content = Some ''Cargo'', raw_url = ''/c''\<rparr>]"

definition example_index :: "indexed list" where
  "example_index = preprocessSearchData example_docs"

definition options_max :: "nat \<Rightarrow> options" where
  "options_max n = mk_options (no_options\<lparr>u_maxResults := Some n\<rparr>)"

section \<open>Invariants of the page\<close>

definition progress_widget :: "progress \<Rightarrow> widget" where
  "progress_widget p = (case p of Settled r st \<Rightarrow> st | Pending w c st \<Rightarrow> st)"

text \<open>Every cached list is what \<open>performSearch\<close> yields for its key on the loaded index.\<close>

definition cache_consistent :: "widget \<Rightarrow> bool" where
  "cache_consistent st =
     (\<forall>q rs. searchCache st q = Some rs \<longrightarrow>
        (\<exists>idx. searchIndex st = Some idx \<and> rs = performSearch (options st) q idx))"

text \<open>
  \<open>st'\<close> has the options and the index of \<open>st\<close>, and its cache or the cache with one
  more search on that index stored.
\<close>

definition same_or_cached :: "widget \<Rightarrow> widget \<Rightarrow> bool" where
  "same_or_cached st st' =
     (options st' = options st \<and> searchIndex st' = searchIndex st
      \<and> (searchCache st' = searchCache st
         \<or> (\<exists>q idx. searchIndex st = Some idx
               \<and> searchCache st' = (searchCache st)(q \<mapsto> performSearch (options st) q idx))))"

definition page_inv :: "page \<Rightarrow> bool" where
  "page_inv s =
     (cache_consistent (widget s) \<and> (inflight s \<noteq> None \<longrightarrow> searchIndex (widget s) = None))"

text \<open>
  Every query that sits in the cache or belongs to a suspended handler has passed the
  length test of \<open>handleSearch\<close>.
\<close>

definition queries_long :: "page \<Rightarrow> bool" where
  "queries_long s =
     ((\<forall>q. searchCache (widget s) q \<noteq> None \<longrightarrow> minQueryLength (options (widget s)) \<le> length q)
      \<and> (\<forall>q. Search q \<in> set (sleeping s) \<longrightarrow> minQueryLength (options (widget s)) \<le> length q)
      \<and> (\<forall>q. inflight s = Some (Search q) \<longrightarrow> minQueryLength (options (widget s)) \<le> length q))"

section \<open>Example pages\<close>

text \<open>
  A page with both elements and the default options (the constructor starts the
  preload), one made with \<open>preload: false\<close>, and a response carrying the example
  documents.
\<close>

definition example_page :: page where
  "example_page = construct no_options (Some []) (Some Blank)"

definition lazy_page :: page where
  "lazy_page = construct (no_options\<lparr>u_preload := Some False\<rparr>) (Some []) (Some Blank)"

definition example_response :: fetch_outcome where
  "example_response = FetchResponse 200 (JsonData example_docs)"

section \<open>Properties of the query processor\<close>

subsection \<open>The score is the documented formula\<close>

lemma score_step_spec:
  "score_step item k (s, tm, cm) =
     (s + spec_token_score item k,
      tm + (if includes_str (titleLower item) k then 1 else 0),
      cm + (if includes_str (contentLower item) k then 1 else 0))"
  by (simp add: score_step_def spec_token_score_def Let_def)

lemma fold_score_step:
  "fold (score_step item) ks (s, tm, cm) =
     (s + (\<Sum>k\<leftarrow>ks. spec_token_score item k),
      tm + spec_title_matches item ks, cm + spec_content_matches item ks)"
proof (induction ks arbitrary: s tm cm)
  case Nil
  then show ?case by (simp add: spec_title_matches_def spec_content_matches_def)
next
  case (Cons k ks)
  have "fold (score_step item) (k # ks) (s, tm, cm) =
        fold (score_step item) ks (score_step item k (s, tm, cm))"
    by simp
  also have "\<dots> = fold (score_step item) ks (s + spec_token_score item k,
      tm + (if includes_str (titleLower item) k then 1 else 0),
      cm + (if includes_str (contentLower item) k then 1 else 0))"
    by (simp only: score_step_spec)
  also have "\<dots> = (s + (\<Sum>k\<leftarrow>k # ks. spec_token_score item k),
      tm + spec_title_matches item (k # ks), cm + spec_content_matches item (k # ks))"
    by (simp add: Cons.IH spec_title_matches_def spec_content_matches_def)
  finally show ?case .
qed

lemma calculateMatchScore_spec: "calculateMatchScore item ks = spec_score item ks"
  by (simp add: calculateMatchScore_def fold_score_step spec_score_def)

subsection \<open>The comparator sort\<close>

lemma js_insert_byScore: "js_insert byScore x ys = insort_key (\<lambda>r. - matchScore r) x ys"
  by (induction ys) (simp_all add: byScore_def)

lemma js_sort_byScore: "js_sort byScore xs = sort_key (\<lambda>r. - matchScore r) xs"
proof -
  have "js_insert byScore = insort_key (\<lambda>r. - matchScore r)"
    by (intro ext) (rule js_insert_byScore)
  then show ?thesis by (simp add: js_sort_def sort_key_def)
qed

subsection \<open>The scan\<close>

lemma truncate_mkResult: "indexed.truncate (mkResult d s ks) = d"
  by (simp add: mkResult_def indexed.truncate_def)

lemma matchScore_mkResult: "matchScore (mkResult d s ks) = s"
  by (simp add: mkResult_def)

text \<open>
  The scan splits the index into the documents it scores, \<open>pre\<close>, and those it never
  reaches, \<open>post\<close>. It leaves documents out only once the cutoff is met, and it went
  past every scored document but the last with less than the cutoff accumulated.
\<close>

lemma scan_decomp:
  "\<exists>pre post. items = pre @ post
     \<and> scanIndex opts ks items (rs, sc) =
         (rs @ map (\<lambda>d. mkResult d (calculateMatchScore d ks) ks)
                 (filter (\<lambda>d. 0 < calculateMatchScore d ks) pre), sc @ pre)
     \<and> (post \<noteq> [] \<longrightarrow>
          maxResults opts * 2 \<le> length rs + length (filter (\<lambda>d. 0 < calculateMatchScore d ks) pre))
     \<and> (2 \<le> length pre \<longrightarrow>
          length rs + length (filter (\<lambda>d. 0 < calculateMatchScore d ks) (butlast pre))
            < maxResults opts * 2)"
proof (induction items arbitrary: rs sc)
  case Nil
  show ?case by simp
next
  case (Cons item rest)
  let ?pos = "\<lambda>d. 0 < calculateMatchScore d ks"
  let ?mk = "\<lambda>d. mkResult d (calculateMatchScore d ks) ks"
  let ?rs1 = "rs @ map ?mk (filter ?pos [item])"
  have step: "scanIndex opts ks (item # rest) (rs, sc) =
      (if maxResults opts * 2 \<le> length ?rs1 then (?rs1, sc @ [item])
       else scanIndex opts ks rest (?rs1, sc @ [item]))"
    by (simp add: Let_def)
  show ?case
  proof (cases "maxResults opts * 2 \<le> length ?rs1")
    case True
    have "item # rest = [item] @ rest" by simp
    moreover have "scanIndex opts ks (item # rest) (rs, sc) =
        (rs @ map ?mk (filter ?pos [item]), sc @ [item])"
      using True step by simp
    moreover have "rest \<noteq> [] \<longrightarrow> maxResults opts * 2 \<le> length rs + length (filter ?pos [item])"
      using True by (auto split: if_splits)
    moreover have "2 \<le> length [item] \<longrightarrow>
        length rs + length (filter ?pos (butlast [item])) < maxResults opts * 2"
      by simp
    ultimately show ?thesis by blast
  next
    case False
    from Cons.IH [of ?rs1 "sc @ [item]"] obtain pre post where
      r: "rest = pre @ post"
      and s: "scanIndex opts ks rest (?rs1, sc @ [item]) =
                (?rs1 @ map ?mk (filter ?pos pre), (sc @ [item]) @ pre)"
      and c: "post \<noteq> [] \<longrightarrow> maxResults opts * 2 \<le> length ?rs1 + length (filter ?pos pre)"
      and b: "2 \<le> length pre \<longrightarrow>
                length ?rs1 + length (filter ?pos (butlast pre)) < maxResults opts * 2"
      by blast
    have 1: "item # rest = (item # pre) @ post" using r by simp
    have 2: "scanIndex opts ks (item # rest) (rs, sc) =
        (rs @ map ?mk (filter ?pos (item # pre)), sc @ (item # pre))"
      using False step s by simp
    have 3: "post \<noteq> [] \<longrightarrow> maxResults opts * 2 \<le> length rs + length (filter ?pos (item # pre))"
      using c by (auto split: if_splits)
    have 4: "2 \<le> length (item # pre) \<longrightarrow>
        length rs + length (filter ?pos (butlast (item # pre))) < maxResults opts * 2"
    proof
      assume "2 \<le> length (item # pre)"
      then have ne: "pre \<noteq> []" by auto
      show "length rs + length (filter ?pos (butlast (item # pre))) < maxResults opts * 2"
      proof (cases "2 \<le> length pre")
        case True
        with b ne show ?thesis by (auto split: if_splits)
      next
        case F: False
        then have "length pre \<le> 1" by simp
        then have "butlast pre = []" by (cases pre) auto
        with False show ?thesis by (auto split: if_splits)
      qed
    qed
    from 1 2 3 4 show ?thesis by blast
  qed
qed

text \<open>The same from the empty accumulator, with the two bounds the cutoff gives.\<close>

lemma scan_top:
  assumes "0 < maxResults opts"
  obtains pre post where "idx = pre @ post"
    and "scanIndex opts ks idx ([], []) =
           (map (\<lambda>d. mkResult d (calculateMatchScore d ks) ks)
              (filter (\<lambda>d. 0 < calculateMatchScore d ks) pre), pre)"
    and "post \<noteq> [] \<longrightarrow>
           length (filter (\<lambda>d. 0 < calculateMatchScore d ks) pre) = maxResults opts * 2"
    and "length (filter (\<lambda>d. 0 < calculateMatchScore d ks) pre) \<le> maxResults opts * 2"
    and "length (filter (\<lambda>d. 0 < calculateMatchScore d ks) (butlast pre)) < maxResults opts * 2"
proof -
  let ?pos = "\<lambda>d. 0 < calculateMatchScore d ks"
  let ?mk = "\<lambda>d. mkResult d (calculateMatchScore d ks) ks"
  from scan_decomp [of idx opts ks "[]" "[]"] obtain pre post where
    i: "idx = pre @ post"
    and s: "scanIndex opts ks idx ([], []) = (map ?mk (filter ?pos pre), pre)"
    and c: "post \<noteq> [] \<longrightarrow> maxResults opts * 2 \<le> length (filter ?pos pre)"
    and b: "2 \<le> length pre \<longrightarrow> length (filter ?pos (butlast pre)) < maxResults opts * 2"
    by auto
  have bl: "length (filter ?pos (butlast pre)) < maxResults opts * 2"
  proof (cases "2 \<le> length pre")
    case True
    with b show ?thesis by simp
  next
    case False
    then have "length pre \<le> 1" by simp
    then have "butlast pre = []" by (cases pre) auto
    with assms show ?thesis by simp
  qed
  have le: "length (filter ?pos pre) \<le> maxResults opts * 2"
  proof (cases "pre = []")
    case True
    then show ?thesis by simp
  next
    case False
    then have "pre = butlast pre @ [last pre]" by simp
    then have "filter ?pos pre = filter ?pos (butlast pre) @ filter ?pos [last pre]"
      by (metis filter_append)
    then have "length (filter ?pos pre) \<le> length (filter ?pos (butlast pre)) + 1"
      by simp
    with bl show ?thesis by simp
  qed
  from c le have "post \<noteq> [] \<longrightarrow> length (filter ?pos pre) = maxResults opts * 2"
    by simp
  with i s le bl that show thesis by blast
qed

lemma scan_take:
  assumes "0 < maxResults opts"
  shows "fst (scanIndex opts ks idx ([], [])) =
     map (\<lambda>d. mkResult d (calculateMatchScore d ks) ks)
       (take (maxResults opts * 2) (filter (\<lambda>d. 0 < calculateMatchScore d ks) idx))"
proof -
  let ?pos = "\<lambda>d. 0 < calculateMatchScore d ks"
  from scan_top [OF assms, of idx ks] obtain pre post where
    i: "idx = pre @ post"
    and s: "scanIndex opts ks idx ([], []) =
              (map (\<lambda>d. mkResult d (calculateMatchScore d ks) ks) (filter ?pos pre), pre)"
    and c: "post \<noteq> [] \<longrightarrow> length (filter ?pos pre) = maxResults opts * 2"
    and le: "length (filter ?pos pre) \<le> maxResults opts * 2"
    by blast
  have "take (maxResults opts * 2) (filter ?pos idx) = filter ?pos pre"
  proof (cases "post = []")
    case True
    with i le show ?thesis by simp
  next
    case False
    with c i show ?thesis by simp
  qed
  with s show ?thesis by simp
qed

lemma scan_members:
  assumes "r \<in> set (fst (scanIndex opts ks idx ([], [])))"
  shows "indexed.truncate r \<in> set idx \<and> 0 < matchScore r
     \<and> matchScore r = calculateMatchScore (indexed.truncate r) ks"
proof -
  let ?pos = "\<lambda>d. 0 < calculateMatchScore d ks"
  let ?mk = "\<lambda>d. mkResult d (calculateMatchScore d ks) ks"
  from scan_decomp [of idx opts ks "[]" "[]"] obtain pre post where
    i: "idx = pre @ post"
    and s: "scanIndex opts ks idx ([], []) = (map ?mk (filter ?pos pre), pre)"
    by auto
  from assms s obtain d where d: "d \<in> set pre" "?pos d" "r = ?mk d" by auto
  then show ?thesis using i by (simp add: truncate_mkResult matchScore_mkResult)
qed

lemma subseq_scan:
  "subseq (map indexed.truncate (fst (scanIndex opts ks idx ([], [])))) idx"
proof -
  let ?pos = "\<lambda>d. 0 < calculateMatchScore d ks"
  let ?mk = "\<lambda>d. mkResult d (calculateMatchScore d ks) ks"
  from scan_decomp [of idx opts ks "[]" "[]"] obtain pre post where
    i: "idx = pre @ post"
    and s: "scanIndex opts ks idx ([], []) = (map ?mk (filter ?pos pre), pre)"
    by auto
  have "map indexed.truncate (map ?mk (filter ?pos pre)) = filter ?pos pre"
    by (simp add: truncate_mkResult comp_def)
  moreover have "subseq (filter ?pos pre) pre" by simp
  moreover have "subseq pre idx" using i by (intro prefix_imp_subseq prefixI)
  ultimately show ?thesis using s by (metis fst_conv subseq_order.order_trans)
qed

subsection \<open>Sorting and truncating\<close>

lemma set_performSearch:
  "set (performSearch opts q idx) \<subseteq> set (fst (scanIndex opts (keywords_of q) idx ([], [])))"
proof -
  have "set (performSearch opts q idx)
      \<subseteq> set (js_sort byScore (fst (scanIndex opts (keywords_of q) idx ([], []))))"
    by (simp add: performSearch_def Let_def set_take_subset)
  then show ?thesis by (simp add: js_sort_byScore)
qed

lemma sorted_performSearch:
  "sorted_wrt (\<lambda>a b. matchScore b \<le> matchScore a) (performSearch opts q idx)"
proof -
  let ?rs = "fst (scanIndex opts (keywords_of q) idx ([], []))"
  have "sorted (map (\<lambda>r. - matchScore r) (sort_key (\<lambda>r. - matchScore r) ?rs))"
    by (rule sorted_sort_key)
  then have "sorted_wrt (\<lambda>a b. matchScore b \<le> matchScore a) (sort_key (\<lambda>r. - matchScore r) ?rs)"
    by (simp add: sorted_map)
  then have "sorted_wrt (\<lambda>a b. matchScore b \<le> matchScore a)
      (take (maxResults opts) (sort_key (\<lambda>r. - matchScore r) ?rs))"
    by (rule sorted_wrt_take)
  then show ?thesis by (simp add: performSearch_def Let_def js_sort_byScore)
qed

lemma stable_performSearch:
  "prefix (filter (\<lambda>r. matchScore r = s) (performSearch opts q idx))
          (filter (\<lambda>r. matchScore r = s) (fst (scanIndex opts (keywords_of q) idx ([], []))))"
proof -
  let ?rs = "fst (scanIndex opts (keywords_of q) idx ([], []))"
  let ?srt = "sort_key (\<lambda>r. - matchScore r) ?rs"
  let ?P = "\<lambda>r. matchScore r = s"
  have "filter (\<lambda>r. - matchScore r = - s) ?srt = filter (\<lambda>r. - matchScore r = - s) ?rs"
    by (rule sort_key_stable)
  then have st: "filter ?P ?srt = filter ?P ?rs" by simp
  have "filter ?P ?srt =
        filter ?P (take (maxResults opts) ?srt) @ filter ?P (drop (maxResults opts) ?srt)"
    by (metis append_take_drop_id filter_append)
  then have "prefix (filter ?P (take (maxResults opts) ?srt)) (filter ?P ?srt)"
    by (metis prefixI)
  then show ?thesis by (simp add: st performSearch_def Let_def js_sort_byScore)
qed

section \<open>Properties of the preprocessing\<close>

lemma match_tag_set: "match_tag cs = Some rest \<Longrightarrow> set rest \<subseteq> set cs"
proof
  fix x
  assume "match_tag cs = Some rest" and x: "x \<in> set rest"
  then have "rest = tl (dropWhile (\<lambda>c. c \<noteq> CHR ''>'') cs)"
    by (simp add: match_tag_def Let_def split: if_splits)
  with x have "x \<in> set (dropWhile (\<lambda>c. c \<noteq> CHR ''>'') cs)"
    by (cases "dropWhile (\<lambda>c. c \<noteq> CHR ''>'') cs") simp_all
  then show "x \<in> set cs"
    by (rule set_dropWhileD)
qed

lemma set_strip_tags: "set (strip_tags s) \<subseteq> set s"
proof (induction s rule: strip_tags.induct)
  case 1
  show ?case by simp
next
  case (2 c cs)
  show ?case
  proof (cases "c = CHR ''<''")
    case False
    with 2 show ?thesis by auto
  next
    case True
    show ?thesis
    proof (cases "match_tag cs")
      case None
      with True 2 show ?thesis by auto
    next
      case (Some rest)
      with True 2 match_tag_set [OF Some] show ?thesis by auto
    qed
  qed
qed

text \<open>
  No tag starts where the text is empty, where it begins with \<open>>\<close> (the class
  \<open>[^>]+\<close> needs a character) or where no \<open>>\<close> follows.
\<close>

lemma match_tag_None_iff:
  "match_tag cs = None \<longleftrightarrow> (cs = [] \<or> hd cs = CHR ''>'' \<or> CHR ''>'' \<notin> set cs)"
proof (cases cs)
  case Nil
  then show ?thesis by (simp add: match_tag_def)
next
  case (Cons a as)
  show ?thesis
  proof (cases "a = CHR ''>''")
    case True
    with Cons show ?thesis by (simp add: match_tag_def)
  next
    case False
    have "dropWhile (\<lambda>c. c \<noteq> CHR ''>'') cs = [] \<longleftrightarrow> CHR ''>'' \<notin> set cs"
      by (auto simp: dropWhile_eq_Nil_conv)
    with False Cons show ?thesis by (simp add: match_tag_def Let_def)
  qed
qed

lemma strip_tags_keeps_no_match:
  assumes "match_tag cs = None"
  shows "match_tag (strip_tags cs) = None"
proof -
  from assms have "cs = [] \<or> hd cs = CHR ''>'' \<or> CHR ''>'' \<notin> set cs"
    by (simp add: match_tag_None_iff)
  then consider "cs = []" | "cs \<noteq> []" "hd cs = CHR ''>''" | "CHR ''>'' \<notin> set cs"
    by blast
  then show ?thesis
  proof cases
    case 1
    then show ?thesis by (simp add: match_tag_def)
  next
    case 2
    then obtain t where "cs = CHR ''>'' # t" by (cases cs) auto
    then show ?thesis by (simp add: match_tag_def)
  next
    case 3
    with set_strip_tags [of cs] have "CHR ''>'' \<notin> set (strip_tags cs)" by blast
    then show ?thesis by (simp add: match_tag_None_iff)
  qed
qed

text \<open>What \<open>replace\<close> returns holds no match of the pattern any more.\<close>

lemma no_tag_left: "\<not> has_tag (strip_tags s)"
proof (induction s rule: strip_tags.induct)
  case 1
  show ?case by simp
next
  case (2 c cs)
  show ?case
  proof (cases "c = CHR ''<''")
    case False
    with 2 show ?thesis by simp
  next
    case True
    show ?thesis
    proof (cases "match_tag cs")
      case None
      with True 2 strip_tags_keeps_no_match [OF None] show ?thesis by simp
    next
      case (Some rest)
      with True 2 show ?thesis by simp
    qed
  qed
qed

lemma strip_tags_id: "\<not> has_tag s \<Longrightarrow> strip_tags s = s"
  by (induction s) (auto split: option.splits)

lemma preprocessSearchData_nth:
  assumes "i < length data"
  shows "preprocessSearchData data ! i = preprocessItem i (data ! i)"
  using assms by (simp add: preprocessSearchData_def nth_enumerate_eq)

section \<open>Properties of the widget\<close>

subsection \<open>What the view operations leave alone\<close>

lemma setView_fields [simp]:
  "options (setView v st) = options st"
  "inputElement (setView v st) = inputElement st"
  "searchIndex (setView v st) = searchIndex st"
  "searchCache (setView v st) = searchCache st"
  "isLoading (setView v st) = isLoading st"
  "currentQuery (setView v st) = currentQuery st"
  "abortController (setView v st) = abortController st"
  "console (setView v st) = console st"
  "fetches (setView v st) = fetches st"
  "scorings (setView v st) = scorings st"
  by (simp_all add: setView_def split: option.splits)

lemma setView_resultElement:
  "resultElement (setView v st) = map_option (\<lambda>_. v) (resultElement st)"
  by (simp add: setView_def split: option.splits)

lemma displayResults_fields [simp]:
  "options (displayResults rs q st) = options st"
  "inputElement (displayResults rs q st) = inputElement st"
  "searchIndex (displayResults rs q st) = searchIndex st"
  "searchCache (displayResults rs q st) = searchCache st"
  "isLoading (displayResults rs q st) = isLoading st"
  "currentQuery (displayResults rs q st) = currentQuery st"
  "abortController (displayResults rs q st) = abortController st"
  "console (displayResults rs q st) = console st"
  "fetches (displayResults rs q st) = fetches st"
  "scorings (displayResults rs q st) = scorings st"
  by (simp_all add: displayResults_def showEmptyState_def)

lemma same_or_cached_refl: "same_or_cached st st"
  by (simp add: same_or_cached_def)

lemma same_or_cached_view:
  "same_or_cached st (setView v st)"
  "same_or_cached st (showErrorState st)"
  "same_or_cached st (clearResults st)"
  "same_or_cached st (displayResults rs q st)"
  "same_or_cached st (clearSearch st)"
  "same_or_cached st (handleKeyNavigation key st)"
  by (simp_all add: same_or_cached_def showErrorState_def clearResults_def clearSearch_def
      handleKeyNavigation_def Let_def split: option.splits)

lemma same_or_cached_consistent:
  assumes "same_or_cached st st'" and "cache_consistent st"
  shows "cache_consistent st'"
  using assms by (auto simp: same_or_cached_def cache_consistent_def split: if_splits)

lemma same_or_cached_keeps:
  assumes "same_or_cached st st'" and "cache_consistent st" and "searchCache st q = Some rs"
  shows "searchCache st' q = Some rs"
  using assms by (auto simp: same_or_cached_def cache_consistent_def split: if_splits)

subsection \<open>The handlers\<close>

lemma handleSearch_resume_cached:
  assumes "handleSearch_resume st q r = (res, st')"
    and "\<And>idx. r = Inr (Some idx) \<Longrightarrow> searchIndex st = Some idx"
  shows "res = Inr () \<and> same_or_cached st st'"
proof (cases r)
  case (Inl e)
  with assms(1) show ?thesis
    by (auto simp: handleSearch_resume_def handleSearch_try_def same_or_cached_def
        showErrorState_def)
next
  case (Inr oi)
  show ?thesis
  proof (cases oi)
    case None
    with Inr assms(1) show ?thesis
      by (auto simp: handleSearch_resume_def handleSearch_try_def same_or_cached_def)
  next
    case (Some idx)
    with Inr assms(2) have i: "searchIndex st = Some idx" by simp
    show ?thesis
    proof (cases "currentQuery st = q")
      case False
      with Inr Some assms(1) show ?thesis
        by (auto simp: handleSearch_resume_def handleSearch_try_def same_or_cached_def)
    next
      case True
      with Inr Some assms(1) have "res = Inr ()"
        and "st' = displayResults (performSearch (options st) q idx) q
               (st\<lparr>searchCache := (searchCache st)(q \<mapsto> performSearch (options st) q idx),
                   scorings := scorings st + 1\<rparr>)"
        by (auto simp: handleSearch_resume_def handleSearch_try_def Let_def)
      with i show ?thesis
        by (auto simp: same_or_cached_def)
    qed
  qed
qed

lemma loadSearchIndex_begin_cases:
  "(\<exists>idx. searchIndex st = Some idx \<and> loadSearchIndex_begin st = (Ready idx, st))
   \<or> (searchIndex st = None \<and> isLoading st \<and> loadSearchIndex_begin st = (MustWait, st))
   \<or> (searchIndex st = None \<and> \<not> isLoading st
       \<and> loadSearchIndex_begin st =
           (Fetching, (showLoadingState (st\<lparr>isLoading := True\<rparr>))
                        \<lparr>abortController := Some False, fetches := fetches st + 1\<rparr>))"
  by (cases "searchIndex st") (auto simp: loadSearchIndex_begin_def)

lemma loadSearchIndex_begin_cached:
  assumes "loadSearchIndex_begin st = (e, st')"
  shows "same_or_cached st st' \<and> (e = Fetching \<longrightarrow> searchIndex st' = None)
     \<and> (\<forall>idx. e = Ready idx \<longrightarrow> searchIndex st' = Some idx)"
  using assms loadSearchIndex_begin_cases [of st]
  by (auto simp: same_or_cached_def showLoadingState_def)

lemma same_or_cached_trans_same:
  assumes "options st1 = options st" "searchIndex st1 = searchIndex st"
    "searchCache st1 = searchCache st" "same_or_cached st1 st2"
  shows "same_or_cached st st2"
  using assms by (auto simp: same_or_cached_def)

lemma handleSearch_begin_cached:
  "same_or_cached st (progress_widget (handleSearch_begin st v))
   \<and> (\<forall>c st'. handleSearch_begin st v = Pending OnFetch c st' \<longrightarrow> searchIndex st' = None)"
proof (cases "length (trim v) < minQueryLength (options st)")
  case True
  then show ?thesis
    by (simp add: handleSearch_begin_def Let_def progress_widget_def same_or_cached_view)
next
  case long: False
  let ?q = "trim v"
  let ?st1 = "st\<lparr>currentQuery := ?q\<rparr>"
  have s1: "options ?st1 = options st" "searchIndex ?st1 = searchIndex st"
    "searchCache ?st1 = searchCache st"
    by simp_all
  show ?thesis
  proof (cases "searchCache st ?q")
    case (Some rs)
    with long have "handleSearch_begin st v = Settled (Inr ()) (displayResults rs ?q ?st1)"
      by (simp add: handleSearch_begin_def Let_def)
    then show ?thesis
      by (simp add: progress_widget_def same_or_cached_def)
  next
    case None
    obtain e st2 where b: "loadSearchIndex_begin ?st1 = (e, st2)"
      by (cases "loadSearchIndex_begin ?st1") auto
    from loadSearchIndex_begin_cached [OF b]
    have c2: "same_or_cached ?st1 st2" and f: "e = Fetching \<longrightarrow> searchIndex st2 = None"
      and rd: "\<forall>idx. e = Ready idx \<longrightarrow> searchIndex st2 = Some idx"
      by blast+
    from c2 have e2: "options st2 = options st" "searchIndex st2 = searchIndex st"
      by (auto simp: same_or_cached_def)
    from b have c3: "searchCache st2 = searchCache st"
      using loadSearchIndex_begin_cases [of ?st1] by (auto simp: showLoadingState_def)
    show ?thesis
    proof (cases e)
      case (Ready idx)
      obtain res st3 where r: "handleSearch_resume st2 ?q (Inr (Some idx)) = (res, st3)"
        by (cases "handleSearch_resume st2 ?q (Inr (Some idx))") auto
      from rd Ready have "searchIndex st2 = Some idx" by simp
      with handleSearch_resume_cached [OF r] have "same_or_cached st2 st3" by simp
      with e2 c3 have "same_or_cached st st3" by (rule same_or_cached_trans_same)
      moreover from long None b Ready r have "handleSearch_begin st v = Settled res st3"
        by (simp add: handleSearch_begin_def Let_def)
      ultimately show ?thesis by (simp add: progress_widget_def)
    next
      case MustWait
      with long None b have "handleSearch_begin st v = Pending OnIdle (Search ?q) st2"
        by (simp add: handleSearch_begin_def Let_def)
      with e2 c3 show ?thesis by (simp add: progress_widget_def same_or_cached_def)
    next
      case Fetching
      with long None b have "handleSearch_begin st v = Pending OnFetch (Search ?q) st2"
        by (simp add: handleSearch_begin_def Let_def)
      with e2 c3 f Fetching show ?thesis by (simp add: progress_widget_def same_or_cached_def)
    qed
  qed
qed

lemma resume_cached:
  assumes "\<And>idx. r = Inr (Some idx) \<Longrightarrow> searchIndex st = Some idx"
  shows "\<exists>st'. resume c st r = Settled (Inr ()) st' \<and> same_or_cached st st'"
proof (cases c)
  case Preload
  then show ?thesis
    by (cases r) (auto simp: resume_def preloadSearchIndex_resume_def same_or_cached_def)
next
  case (Search q)
  obtain res st' where r: "handleSearch_resume st q r = (res, st')"
    by (cases "handleSearch_resume st q r") auto
  from handleSearch_resume_cached [OF r] assms have "res = Inr ()" "same_or_cached st st'"
    by auto
  with Search r show ?thesis by (simp add: resume_def)
qed

lemma widget_absorb: "widget (absorb s p) = progress_widget p"
  by (cases p) (auto simp: absorb_def progress_widget_def split: wait.splits)

lemma inflight_absorb:
  "inflight (absorb s p) =
     (case p of Pending OnFetch c st \<Rightarrow> Some c | _ \<Rightarrow> inflight s)"
  by (cases p) (auto simp: absorb_def split: wait.splits)

subsection \<open>The loader\<close>

lemma loadSearchIndex_settle_fields:
  assumes "loadSearchIndex_settle st out = (r, st1)"
  shows "options st1 = options st \<and> searchCache st1 = searchCache st
     \<and> \<not> isLoading st1 \<and> abortController st1 = None
     \<and> fetches st1 = fetches st \<and> scorings st1 = scorings st
     \<and> (case fetch_result out of
          Inr data \<Rightarrow> r = Inr (Some (preprocessSearchData data))
                       \<and> searchIndex st1 = Some (preprocessSearchData data)
                       \<and> resultElement st1 = resultElement st
        | Inl e \<Rightarrow> searchIndex st1 = searchIndex st
                    \<and> r = (if e = AbortError then Inr None else Inl e)
                    \<and> resultElement st1 =
                        (if e = AbortError then resultElement st
                         else map_option (\<lambda>_. ErrorView) (resultElement st)))"
  using assms
  by (cases "fetch_result out")
     (auto simp: loadSearchIndex_settle_def Let_def showErrorState_def setView_resultElement
        split: if_splits)

subsection \<open>The invariant\<close>

lemma page_inv_construct: "page_inv (construct u input_el result_el)"
proof -
  let ?st0 = "\<lparr> options = mk_options u, inputElement = input_el, resultElement = result_el,
                   searchIndex = None, searchCache = Map.empty, isLoading = False,
                   currentQuery = [], abortController = None,
                   console = (if input_el = None \<or> result_el = None
                              then [ConsoleWarn ''Enhanced Search: Required elements not found'']
                              else []),
                   fetches = 0, scorings = 0 \<rparr>"
  have "preloadSearchIndex_begin ?st0 = Settled (Inr ()) ?st0
      \<or> preloadSearchIndex_begin ?st0 =
           Pending OnFetch Preload
             ((showLoadingState (?st0\<lparr>isLoading := True\<rparr>))
                \<lparr>abortController := Some False, fetches := fetches ?st0 + 1\<rparr>)"
    by (simp add: preloadSearchIndex_begin_def loadSearchIndex_begin_def)
  then show ?thesis
    by (auto simp: construct_def Let_def absorb_def page_inv_def cache_consistent_def
        showLoadingState_def)
qed

lemma page_inv_step:
  assumes "page_inv s"
  shows "page_inv (step s ev)"
proof -
  from assms have cc: "cache_consistent (widget s)"
    and fl: "inflight s \<noteq> None \<longrightarrow> searchIndex (widget s) = None"
    by (simp_all add: page_inv_def)
  show ?thesis
  proof (cases ev)
    case (Input v)
    show ?thesis
    proof (cases "inputElement (widget s)")
      case None
      with Input assms show ?thesis by (simp add: step_def)
    next
      case (Some old)
      let ?w = "(widget s)\<lparr>inputElement := Some v\<rparr>"
      let ?p = "handleSearch_begin ?w v"
      from Input Some have st: "step s ev = absorb s ?p" by (simp add: step_def)
      from handleSearch_begin_cached [of ?w v]
      have c: "same_or_cached ?w (progress_widget ?p)"
        and f: "\<forall>c st'. ?p = Pending OnFetch c st' \<longrightarrow> searchIndex st' = None"
        by blast+
      have c': "same_or_cached (widget s) (progress_widget ?p)"
        by (rule same_or_cached_trans_same [OF _ _ _ c]) simp_all
      then have 1: "cache_consistent (progress_widget ?p)"
        using cc by (rule same_or_cached_consistent)
      from c' have si: "searchIndex (progress_widget ?p) = searchIndex (widget s)"
        by (simp add: same_or_cached_def)
      have 2: "inflight (absorb s ?p) \<noteq> None \<longrightarrow> searchIndex (progress_widget ?p) = None"
      proof (cases ?p)
        case (Settled r st')
        with fl si show ?thesis by (simp add: inflight_absorb)
      next
        case (Pending wt c st')
        show ?thesis
        proof (cases wt)
          case OnFetch
          with Pending f show ?thesis by (simp add: progress_widget_def)
        next
          case OnIdle
          with Pending fl si show ?thesis by (simp add: inflight_absorb)
        qed
      qed
      from 1 2 show ?thesis by (simp add: st page_inv_def widget_absorb)
    qed
  next
    case (KeyDown key)
    have "cache_consistent (handleKeyNavigation key (widget s))"
      using same_or_cached_view(6) cc by (rule same_or_cached_consistent)
    moreover have "searchIndex (handleKeyNavigation key (widget s)) = searchIndex (widget s)"
      using same_or_cached_view(6) [of "widget s" key] by (simp add: same_or_cached_def)
    ultimately show ?thesis
      using KeyDown assms fl by (auto simp: step_def page_inv_def split: option.splits)
  next
    case (Click target)
    have "cache_consistent (clearSearch (widget s))"
      using same_or_cached_view(5) cc by (rule same_or_cached_consistent)
    moreover have "searchIndex (clearSearch (widget s)) = searchIndex (widget s)"
      using same_or_cached_view(5) [of "widget s"] by (simp add: same_or_cached_def)
    ultimately show ?thesis
      using Click assms fl by (auto simp: step_def page_inv_def split: option.splits)
  next
    case Destroy
    then show ?thesis
      by (auto simp: step_def page_inv_def destroy_def Let_def cache_consistent_def
          split: option.splits)
  next
    case (FetchSettles out)
    show ?thesis
    proof (cases "inflight s")
      case None
      with FetchSettles assms show ?thesis by (simp add: step_def)
    next
      case (Some c)
      with fl have none: "searchIndex (widget s) = None" by simp
      with cc have empty: "\<And>q. searchCache (widget s) q = None"
        by (auto simp: cache_consistent_def)
      obtain r st1 where se: "loadSearchIndex_settle (widget s) out = (r, st1)"
        by (cases "loadSearchIndex_settle (widget s) out") auto
      note sf = loadSearchIndex_settle_fields [OF se]
      from sf empty have cc1: "cache_consistent st1"
        by (simp add: cache_consistent_def)
      have rc: "\<And>idx. r = Inr (Some idx) \<Longrightarrow> searchIndex st1 = Some idx"
        using sf none by (cases "fetch_result out") (auto split: if_splits)
      from resume_cached [of r st1 c, OF rc] obtain st2 where
        rs: "resume c st1 r = Settled (Inr ()) st2" and c2: "same_or_cached st1 st2"
        by blast
      from c2 cc1 have "cache_consistent st2" by (rule same_or_cached_consistent)
      moreover from FetchSettles Some se rs
      have "step s ev = absorb (s\<lparr>inflight := None\<rparr>) (Settled (Inr ()) st2)"
        by (simp add: step_def)
      ultimately show ?thesis
        by (simp add: page_inv_def absorb_def)
    qed
  next
    case (TimerFires i)
    show ?thesis
    proof (cases "i < length (sleeping s) \<and> \<not> isLoading (widget s)")
      case False
      with TimerFires assms show ?thesis
        by (auto simp: step_def loadSearchIndex_wake_def)
    next
      case True
      let ?s1 = "s\<lparr>sleeping := take i (sleeping s) @ drop (Suc i) (sleeping s)\<rparr>"
      have rc: "\<And>idx. (Inr (searchIndex (widget s)) :: js_error + indexed list option)
                  = Inr (Some idx) \<Longrightarrow> searchIndex (widget s) = Some idx"
        by simp
      from resume_cached [of "Inr (searchIndex (widget s))" "widget s" "sleeping s ! i", OF rc]
      obtain st2 where
        rs: "resume (sleeping s ! i) (widget s) (Inr (searchIndex (widget s)))
               = Settled (Inr ()) st2"
        and c2: "same_or_cached (widget s) st2"
        by blast
      from c2 cc have "cache_consistent st2" by (rule same_or_cached_consistent)
      moreover from c2 have "searchIndex st2 = searchIndex (widget s)"
        by (simp add: same_or_cached_def)
      moreover from TimerFires True rs have "step s ev = absorb ?s1 (Settled (Inr ()) st2)"
        by (simp add: step_def loadSearchIndex_wake_def)
      ultimately show ?thesis
        using fl by (simp add: page_inv_def absorb_def)
    qed
  qed
qed

lemma page_inv_run:
  assumes "page_inv s"
  shows "page_inv (run s evs)"
  using assms
proof (induction evs arbitrary: s)
  case Nil
  then show ?case by (simp add: run_def)
next
  case (Cons ev evs)
  from Cons.prems have "page_inv (step s ev)" by (rule page_inv_step)
  from Cons.IH [OF this] show ?case by (simp add: run_def)
qed

text \<open>
  Without a teardown, an event leaves the options alone and only adds searches on the
  loaded index to the cache, once an index is loaded.
\<close>

lemma step_cached:
  assumes "page_inv s" and "ev \<noteq> Destroy" and "searchIndex (widget s) = Some idx"
  shows "same_or_cached (widget s) (widget (step s ev))"
proof -
  from assms(1,3) have nofl: "inflight s = None"
    by (auto simp: page_inv_def)
  show ?thesis
  proof (cases ev)
    case (Input v)
    show ?thesis
    proof (cases "inputElement (widget s)")
      case None
      with Input show ?thesis by (simp add: step_def same_or_cached_refl)
    next
      case (Some old)
      let ?w = "(widget s)\<lparr>inputElement := Some v\<rparr>"
      from handleSearch_begin_cached [of ?w v]
      have c: "same_or_cached ?w (progress_widget (handleSearch_begin ?w v))"
        by blast
      have "same_or_cached (widget s) (progress_widget (handleSearch_begin ?w v))"
        by (rule same_or_cached_trans_same [OF _ _ _ c]) simp_all
      with Input Some show ?thesis by (simp add: step_def widget_absorb)
    qed
  next
    case (KeyDown key)
    then show ?thesis
      by (auto simp: step_def same_or_cached_refl same_or_cached_view split: option.splits)
  next
    case (Click target)
    then show ?thesis
      by (auto simp: step_def same_or_cached_refl same_or_cached_view split: option.splits)
  next
    case Destroy
    with assms(2) show ?thesis by simp
  next
    case (FetchSettles out)
    with nofl show ?thesis by (simp add: step_def same_or_cached_refl)
  next
    case (TimerFires i)
    show ?thesis
    proof (cases "i < length (sleeping s) \<and> \<not> isLoading (widget s)")
      case False
      with TimerFires show ?thesis
        by (auto simp: step_def loadSearchIndex_wake_def same_or_cached_refl)
    next
      case True
      have rc: "\<And>idx. (Inr (searchIndex (widget s)) :: js_error + indexed list option)
                  = Inr (Some idx) \<Longrightarrow> searchIndex (widget s) = Some idx"
        by simp
      from resume_cached [of "Inr (searchIndex (widget s))" "widget s" "sleeping s ! i", OF rc]
      obtain st2 where
        rs: "resume (sleeping s ! i) (widget s) (Inr (searchIndex (widget s)))
               = Settled (Inr ()) st2"
        and c2: "same_or_cached (widget s) st2"
        by blast
      from TimerFires True rs have "widget (step s ev) = st2"
        by (simp add: step_def loadSearchIndex_wake_def absorb_def)
      with c2 show ?thesis by simp
    qed
  qed
qed

lemma run_keeps_cached:
  assumes "page_inv s" and "Destroy \<notin> set evs" and "searchCache (widget s) q = Some rs"
  shows "searchCache (widget (run s evs)) q = Some rs
     \<and> options (widget (run s evs)) = options (widget s)"
  using assms
proof (induction evs arbitrary: s)
  case Nil
  then show ?case by (simp add: run_def)
next
  case (Cons ev evs)
  from Cons.prems(1) have cc: "cache_consistent (widget s)" by (simp add: page_inv_def)
  with Cons.prems(3) have "\<exists>idx. searchIndex (widget s) = Some idx"
    unfolding cache_consistent_def by blast
  then obtain idx where i: "searchIndex (widget s) = Some idx" ..
  from Cons.prems(2) have ne: "ev \<noteq> Destroy" and rest: "Destroy \<notin> set evs" by auto
  from step_cached [OF Cons.prems(1) ne i]
  have c: "same_or_cached (widget s) (widget (step s ev))" .
  from same_or_cached_keeps [OF c cc Cons.prems(3)]
  have k: "searchCache (widget (step s ev)) q = Some rs" .
  from c have o: "options (widget (step s ev)) = options (widget s)"
    by (simp add: same_or_cached_def)
  from Cons.prems(1) have "page_inv (step s ev)" by (rule page_inv_step)
  from Cons.IH [OF this rest k] o show ?case by (simp add: run_def)
qed

subsection \<open>Loads in flight\<close>

lemma handleSearch_resume_frame:
  "isLoading (snd (handleSearch_resume st q r)) = isLoading st
   \<and> fetches (snd (handleSearch_resume st q r)) = fetches st
   \<and> searchIndex (snd (handleSearch_resume st q r)) = searchIndex st"
proof (cases r)
  case (Inl e)
  then show ?thesis
    by (simp add: handleSearch_resume_def handleSearch_try_def showErrorState_def)
next
  case (Inr oi)
  then show ?thesis
    by (cases oi) (simp_all add: handleSearch_resume_def handleSearch_try_def Let_def)
qed

lemma resume_frame:
  "isLoading (progress_widget (resume c st r)) = isLoading st
   \<and> fetches (progress_widget (resume c st r)) = fetches st
   \<and> searchIndex (progress_widget (resume c st r)) = searchIndex st"
proof (cases c)
  case Preload
  then show ?thesis
    by (cases r) (simp_all add: resume_def preloadSearchIndex_resume_def progress_widget_def)
next
  case (Search q)
  obtain res st' where r: "handleSearch_resume st q r = (res, st')"
    by (cases "handleSearch_resume st q r") auto
  with handleSearch_resume_frame [of st q r] Search show ?thesis
    by (simp add: resume_def progress_widget_def)
qed

lemma handleSearch_begin_frame:
  "searchIndex (progress_widget (handleSearch_begin st v)) = searchIndex st
   \<and> (isLoading st \<longrightarrow>
        isLoading (progress_widget (handleSearch_begin st v))
        \<and> fetches (progress_widget (handleSearch_begin st v)) = fetches st)
   \<and> (isLoading (progress_widget (handleSearch_begin st v)) \<longrightarrow>
        isLoading st \<or> searchIndex st = None)"
proof (cases "length (trim v) < minQueryLength (options st)")
  case True
  then show ?thesis
    by (simp add: handleSearch_begin_def Let_def progress_widget_def clearResults_def)
next
  case long: False
  let ?q = "trim v"
  let ?st1 = "st\<lparr>currentQuery := ?q\<rparr>"
  show ?thesis
  proof (cases "searchCache st ?q")
    case (Some rs)
    with long show ?thesis
      by (simp add: handleSearch_begin_def Let_def progress_widget_def)
  next
    case None
    from loadSearchIndex_begin_cases [of ?st1]
    consider idx where "searchIndex st = Some idx" "loadSearchIndex_begin ?st1 = (Ready idx, ?st1)"
      | "searchIndex st = None" "isLoading st" "loadSearchIndex_begin ?st1 = (MustWait, ?st1)"
      | "searchIndex st = None" "\<not> isLoading st" "loadSearchIndex_begin ?st1 =
           (Fetching, (showLoadingState (?st1\<lparr>isLoading := True\<rparr>))
                        \<lparr>abortController := Some False, fetches := fetches ?st1 + 1\<rparr>)"
      by auto
    then show ?thesis
    proof cases
      case 1
      obtain res st3 where r: "handleSearch_resume ?st1 ?q (Inr (Some idx)) = (res, st3)"
        by (cases "handleSearch_resume ?st1 ?q (Inr (Some idx))") auto
      with long None 1 have "progress_widget (handleSearch_begin st v) = st3"
        by (simp add: handleSearch_begin_def Let_def progress_widget_def)
      with handleSearch_resume_frame [of ?st1 ?q "Inr (Some idx)"] r show ?thesis
        by simp
    next
      case 2
      with long None show ?thesis
        by (simp add: handleSearch_begin_def Let_def progress_widget_def)
    next
      case 3
      with long None show ?thesis
        by (simp add: handleSearch_begin_def Let_def progress_widget_def showLoadingState_def)
    qed
  qed
qed

lemma clearSearch_frame:
  "isLoading (clearSearch st) = isLoading st \<and> fetches (clearSearch st) = fetches st
   \<and> searchIndex (clearSearch st) = searchIndex st"
  by (simp add: clearSearch_def clearResults_def Let_def split: option.splits)

text \<open>While a load is in flight no index is loaded, in every state a page can reach.\<close>

lemma loading_no_index_step:
  assumes "isLoading (widget s) \<longrightarrow> searchIndex (widget s) = None"
  shows "isLoading (widget (step s ev)) \<longrightarrow> searchIndex (widget (step s ev)) = None"
proof (cases ev)
  case (Input v)
  show ?thesis
  proof (cases "inputElement (widget s)")
    case None
    with Input assms show ?thesis by (simp add: step_def)
  next
    case (Some old)
    let ?w = "(widget s)\<lparr>inputElement := Some v\<rparr>"
    from Input Some have "widget (step s ev) = progress_widget (handleSearch_begin ?w v)"
      by (simp add: step_def widget_absorb)
    with handleSearch_begin_frame [of ?w v] assms show ?thesis by auto
  qed
next
  case (KeyDown key)
  with assms clearSearch_frame [of "widget s"] show ?thesis
    by (auto simp: step_def handleKeyNavigation_def split: option.splits)
next
  case (Click target)
  with assms clearSearch_frame [of "widget s"] show ?thesis
    by (auto simp: step_def split: option.splits)
next
  case Destroy
  then show ?thesis
    by (simp add: step_def destroy_def Let_def split: option.splits)
next
  case (FetchSettles out)
  show ?thesis
  proof (cases "inflight s")
    case None
    with FetchSettles assms show ?thesis by (simp add: step_def)
  next
    case (Some c)
    obtain r st1 where se: "loadSearchIndex_settle (widget s) out = (r, st1)"
      by (cases "loadSearchIndex_settle (widget s) out") auto
    from loadSearchIndex_settle_fields [OF se] have "\<not> isLoading st1" by simp
    with resume_frame [of c st1 r] have "\<not> isLoading (progress_widget (resume c st1 r))"
      by simp
    moreover from FetchSettles Some se
    have "widget (step s ev) = progress_widget (resume c st1 r)"
      by (simp add: step_def widget_absorb)
    ultimately show ?thesis by simp
  qed
next
  case (TimerFires i)
  show ?thesis
  proof (cases "i < length (sleeping s) \<and> \<not> isLoading (widget s)")
    case False
    with TimerFires assms show ?thesis
      by (auto simp: step_def loadSearchIndex_wake_def)
  next
    case True
    with TimerFires have "widget (step s ev)
        = progress_widget (resume (sleeping s ! i) (widget s) (Inr (searchIndex (widget s))))"
      by (simp add: step_def loadSearchIndex_wake_def widget_absorb)
    with resume_frame [of "sleeping s ! i" "widget s" "Inr (searchIndex (widget s))"] True
    show ?thesis by simp
  qed
qed

lemma loading_no_index_construct:
  "isLoading (widget (construct u input_el result_el))
     \<longrightarrow> searchIndex (widget (construct u input_el result_el)) = None"
  using page_inv_construct [of u input_el result_el]
  by (simp add: construct_def Let_def widget_absorb preloadSearchIndex_begin_def
      loadSearchIndex_begin_def progress_widget_def showLoadingState_def)

lemma loading_no_index:
  "isLoading (widget (run (construct u input_el result_el) evs))
     \<longrightarrow> searchIndex (widget (run (construct u input_el result_el) evs)) = None"
proof -
  have "\<And>s. isLoading (widget s) \<longrightarrow> searchIndex (widget s) = None
      \<Longrightarrow> isLoading (widget (run s evs)) \<longrightarrow> searchIndex (widget (run s evs)) = None"
  proof (induction evs)
    case Nil
    then show ?case by (simp add: run_def)
  next
    case (Cons ev evs)
    from loading_no_index_step [OF Cons.prems]
    have "isLoading (widget (step s ev)) \<longrightarrow> searchIndex (widget (step s ev)) = None" .
    from Cons.IH [OF this] show ?case by (simp add: run_def)
  qed
  from this [OF loading_no_index_construct] show ?thesis .
qed

text \<open>An event that finds a load in flight issues no fetch.\<close>

lemma no_fetch_while_loading:
  assumes "isLoading (widget s)"
  shows "fetches (widget (step s ev)) = fetches (widget s)"
proof (cases ev)
  case (Input v)
  show ?thesis
  proof (cases "inputElement (widget s)")
    case None
    with Input show ?thesis by (simp add: step_def)
  next
    case (Some old)
    let ?w = "(widget s)\<lparr>inputElement := Some v\<rparr>"
    from Input Some have "widget (step s ev) = progress_widget (handleSearch_begin ?w v)"
      by (simp add: step_def widget_absorb)
    with handleSearch_begin_frame [of ?w v] assms show ?thesis by simp
  qed
next
  case (KeyDown key)
  with clearSearch_frame [of "widget s"] show ?thesis
    by (auto simp: step_def handleKeyNavigation_def split: option.splits)
next
  case (Click target)
  with clearSearch_frame [of "widget s"] show ?thesis
    by (auto simp: step_def split: option.splits)
next
  case Destroy
  then show ?thesis
    by (simp add: step_def destroy_def Let_def split: option.splits)
next
  case (FetchSettles out)
  show ?thesis
  proof (cases "inflight s")
    case None
    with FetchSettles show ?thesis by (simp add: step_def)
  next
    case (Some c)
    obtain r st1 where se: "loadSearchIndex_settle (widget s) out = (r, st1)"
      by (cases "loadSearchIndex_settle (widget s) out") auto
    from loadSearchIndex_settle_fields [OF se] have "fetches st1 = fetches (widget s)" by simp
    with resume_frame [of c st1 r]
    have "fetches (progress_widget (resume c st1 r)) = fetches (widget s)" by simp
    moreover from FetchSettles Some se
    have "widget (step s ev) = progress_widget (resume c st1 r)"
      by (simp add: step_def widget_absorb)
    ultimately show ?thesis by simp
  qed
next
  case (TimerFires i)
  with assms show ?thesis by (simp add: step_def loadSearchIndex_wake_def)
qed

subsection \<open>No handler promise is rejected\<close>

lemma handleSearch_resume_fulfils: "fst (handleSearch_resume st q r) = Inr ()"
  by (cases "handleSearch_try st q r") (simp_all add: handleSearch_resume_def)

lemma resume_fulfils: "\<exists>st'. resume c st r = Settled (Inr ()) st'"
proof (cases c)
  case Preload
  then show ?thesis
    by (cases r) (simp_all add: resume_def preloadSearchIndex_resume_def)
next
  case (Search q)
  obtain res st' where r: "handleSearch_resume st q r = (res, st')"
    by (cases "handleSearch_resume st q r") auto
  with handleSearch_resume_fulfils [of st q r] have "res = Inr ()" by simp
  with Search r show ?thesis by (simp add: resume_def)
qed

lemma handleSearch_begin_fulfils:
  assumes "handleSearch_begin st v = Settled r st'"
  shows "r = Inr ()"
proof (cases "length (trim v) < minQueryLength (options st)")
  case True
  with assms show ?thesis by (simp add: handleSearch_begin_def Let_def)
next
  case long: False
  let ?q = "trim v"
  let ?st1 = "st\<lparr>currentQuery := ?q\<rparr>"
  show ?thesis
  proof (cases "searchCache st ?q")
    case (Some rs)
    with long assms show ?thesis by (simp add: handleSearch_begin_def Let_def)
  next
    case None
    obtain e st2 where b: "loadSearchIndex_begin ?st1 = (e, st2)"
      by (cases "loadSearchIndex_begin ?st1") auto
    show ?thesis
    proof (cases e)
      case (Ready idx)
      obtain res st3 where r: "handleSearch_resume st2 ?q (Inr (Some idx)) = (res, st3)"
        by (cases "handleSearch_resume st2 ?q (Inr (Some idx))") auto
      with handleSearch_resume_fulfils [of st2 ?q "Inr (Some idx)"] have "res = Inr ()" by simp
      with long None b Ready r assms show ?thesis
        by (simp add: handleSearch_begin_def Let_def)
    next
      case MustWait
      with long None b assms show ?thesis by (simp add: handleSearch_begin_def Let_def)
    next
      case Fetching
      with long None b assms show ?thesis by (simp add: handleSearch_begin_def Let_def)
    qed
  qed
qed

lemma unhandled_absorb_fulfilled: "unhandled (absorb s (Settled (Inr ()) st)) = unhandled s"
  by (simp add: absorb_def)

lemma unhandled_step: "unhandled (step s ev) = unhandled s"
proof (cases ev)
  case (Input v)
  show ?thesis
  proof (cases "inputElement (widget s)")
    case None
    with Input show ?thesis by (simp add: step_def)
  next
    case (Some old)
    let ?p = "handleSearch_begin ((widget s)\<lparr>inputElement := Some v\<rparr>) v"
    from Input Some have st: "step s ev = absorb s ?p" by (simp add: step_def)
    show ?thesis
    proof (cases ?p)
      case (Settled r st')
      from handleSearch_begin_fulfils [OF Settled] have "r = Inr ()" .
      with Settled st show ?thesis by (simp add: absorb_def)
    next
      case (Pending wt c st')
      with st show ?thesis by (cases wt) (simp_all add: absorb_def)
    qed
  qed
next
  case (KeyDown key)
  then show ?thesis by (simp add: step_def split: option.splits)
next
  case (Click target)
  then show ?thesis by (simp add: step_def split: option.splits)
next
  case Destroy
  then show ?thesis by (simp add: step_def)
next
  case (FetchSettles out)
  show ?thesis
  proof (cases "inflight s")
    case None
    with FetchSettles show ?thesis by (simp add: step_def)
  next
    case (Some c)
    obtain r st1 where se: "loadSearchIndex_settle (widget s) out = (r, st1)"
      by (cases "loadSearchIndex_settle (widget s) out") auto
    from resume_fulfils [of c st1 r] obtain st2 where
      "resume c st1 r = Settled (Inr ()) st2" by blast
    with FetchSettles Some se show ?thesis by (simp add: step_def absorb_def)
  qed
next
  case (TimerFires i)
  show ?thesis
  proof (cases "i < length (sleeping s) \<and> \<not> isLoading (widget s)")
    case False
    with TimerFires show ?thesis by (auto simp: step_def loadSearchIndex_wake_def)
  next
    case True
    from resume_fulfils [of "sleeping s ! i" "widget s" "Inr (searchIndex (widget s))"]
    obtain st2 where
      "resume (sleeping s ! i) (widget s) (Inr (searchIndex (widget s))) = Settled (Inr ()) st2"
      by blast
    with TimerFires True show ?thesis
      by (simp add: step_def loadSearchIndex_wake_def absorb_def)
  qed
qed

lemma unhandled_run: "unhandled (run s evs) = unhandled s"
proof (induction evs arbitrary: s)
  case Nil
  show ?case by (simp add: run_def)
next
  case (Cons ev evs)
  from Cons.IH [of "step s ev"] unhandled_step [of s ev] show ?case by (simp add: run_def)
qed

lemma unhandled_construct: "unhandled (construct u input_el result_el) = []"
  by (simp add: construct_def Let_def absorb_def preloadSearchIndex_begin_def
      loadSearchIndex_begin_def preloadSearchIndex_resume_def)

text \<open>Whatever happens on a page, no rejection of a handler promise is left unhandled.\<close>

lemma never_unhandled: "unhandled (run (construct u input_el result_el) evs) = []"
  by (simp add: unhandled_run unhandled_construct)

subsection \<open>Searches and the cache\<close>

lemma handleSearch_resume_keys:
  "options (snd (handleSearch_resume st q r)) = options st
   \<and> (\<forall>k. searchCache (snd (handleSearch_resume st q r)) k \<noteq> None
          \<longrightarrow> k = q \<or> searchCache st k \<noteq> None)
   \<and> (scorings (snd (handleSearch_resume st q r)) \<noteq> scorings st
        \<longrightarrow> currentQuery (snd (handleSearch_resume st q r)) = q
            \<and> searchCache (snd (handleSearch_resume st q r)) q \<noteq> None)"
proof (cases r)
  case (Inl e)
  then show ?thesis
    by (simp add: handleSearch_resume_def handleSearch_try_def showErrorState_def)
next
  case (Inr oi)
  then show ?thesis
    by (cases oi) (simp_all add: handleSearch_resume_def handleSearch_try_def Let_def)
qed

lemma resume_keys:
  "options (progress_widget (resume c st r)) = options st
   \<and> (\<forall>k. searchCache (progress_widget (resume c st r)) k \<noteq> None
          \<longrightarrow> c = Search k \<or> searchCache st k \<noteq> None)
   \<and> (scorings (progress_widget (resume c st r)) \<noteq> scorings st
        \<longrightarrow> searchCache (progress_widget (resume c st r))
              (currentQuery (progress_widget (resume c st r))) \<noteq> None)"
proof (cases c)
  case Preload
  then show ?thesis
    by (cases r) (simp_all add: resume_def preloadSearchIndex_resume_def progress_widget_def)
next
  case (Search q)
  obtain res st' where r: "handleSearch_resume st q r = (res, st')"
    by (cases "handleSearch_resume st q r") auto
  with handleSearch_resume_keys [of st q r] Search show ?thesis
    by (auto simp: resume_def progress_widget_def)
qed

text \<open>
  What a call of \<open>handleSearch\<close> can do to the cache, whom it leaves suspended, and
  what holds when it has run a search.
\<close>

lemma handleSearch_begin_keys:
  "options (progress_widget (handleSearch_begin st v)) = options st
   \<and> (\<forall>k. searchCache (progress_widget (handleSearch_begin st v)) k \<noteq> None
          \<longrightarrow> (k = trim v \<and> minQueryLength (options st) \<le> length k)
              \<or> searchCache st k \<noteq> None)
   \<and> (\<forall>w c st'. handleSearch_begin st v = Pending w c st'
          \<longrightarrow> c = Search (trim v) \<and> minQueryLength (options st) \<le> length (trim v)
              \<and> (w = OnFetch \<longrightarrow> isLoading st'))
   \<and> (scorings (progress_widget (handleSearch_begin st v)) \<noteq> scorings st
        \<longrightarrow> searchCache (progress_widget (handleSearch_begin st v))
              (currentQuery (progress_widget (handleSearch_begin st v))) \<noteq> None)"
proof (cases "length (trim v) < minQueryLength (options st)")
  case True
  then show ?thesis
    by (simp add: handleSearch_begin_def Let_def progress_widget_def clearResults_def)
next
  case long: False
  let ?q = "trim v"
  let ?st1 = "st\<lparr>currentQuery := ?q\<rparr>"
  show ?thesis
  proof (cases "searchCache st ?q")
    case (Some rs)
    with long show ?thesis
      by (simp add: handleSearch_begin_def Let_def progress_widget_def)
  next
    case None
    from loadSearchIndex_begin_cases [of ?st1]
    consider idx where "loadSearchIndex_begin ?st1 = (Ready idx, ?st1)"
      | "loadSearchIndex_begin ?st1 = (MustWait, ?st1)"
      | "loadSearchIndex_begin ?st1 =
           (Fetching, (showLoadingState (?st1\<lparr>isLoading := True\<rparr>))
                        \<lparr>abortController := Some False, fetches := fetches ?st1 + 1\<rparr>)"
      by blast
    then show ?thesis
    proof cases
      case 1
      obtain res st3 where r: "handleSearch_resume ?st1 ?q (Inr (Some idx)) = (res, st3)"
        by (cases "handleSearch_resume ?st1 ?q (Inr (Some idx))") auto
      with long None 1 have b: "handleSearch_begin st v = Settled res st3"
        by (simp add: handleSearch_begin_def Let_def)
      from handleSearch_resume_keys [of ?st1 ?q "Inr (Some idx)"] r long b show ?thesis
        by (auto simp: progress_widget_def)
    next
      case 2
      with long None show ?thesis
        by (simp add: handleSearch_begin_def Let_def progress_widget_def)
    next
      case 3
      with long None show ?thesis
        by (simp add: handleSearch_begin_def Let_def progress_widget_def showLoadingState_def)
    qed
  qed
qed

lemma step_scored:
  assumes "scorings (widget (step s ev)) \<noteq> scorings (widget s)"
  shows "searchCache (widget (step s ev)) (currentQuery (widget (step s ev))) \<noteq> None"
proof (cases ev)
  case (Input v)
  show ?thesis
  proof (cases "inputElement (widget s)")
    case None
    with Input assms show ?thesis by (simp add: step_def)
  next
    case (Some old)
    let ?w = "(widget s)\<lparr>inputElement := Some v\<rparr>"
    from Input Some have "widget (step s ev) = progress_widget (handleSearch_begin ?w v)"
      by (simp add: step_def widget_absorb)
    with handleSearch_begin_keys [of ?w v] assms show ?thesis by simp
  qed
next
  case (KeyDown key)
  with assms show ?thesis
    by (auto simp: step_def handleKeyNavigation_def clearSearch_def clearResults_def Let_def
        split: option.splits if_splits)
next
  case (Click target)
  with assms show ?thesis
    by (auto simp: step_def clearSearch_def clearResults_def Let_def
        split: option.splits if_splits)
next
  case Destroy
  with assms show ?thesis
    by (simp add: step_def destroy_def Let_def split: option.splits)
next
  case (FetchSettles out)
  show ?thesis
  proof (cases "inflight s")
    case None
    with FetchSettles assms show ?thesis by (simp add: step_def)
  next
    case (Some c)
    obtain r st1 where se: "loadSearchIndex_settle (widget s) out = (r, st1)"
      by (cases "loadSearchIndex_settle (widget s) out") auto
    from loadSearchIndex_settle_fields [OF se] have "scorings st1 = scorings (widget s)"
      by simp
    moreover from FetchSettles Some se
    have "widget (step s ev) = progress_widget (resume c st1 r)"
      by (simp add: step_def widget_absorb)
    ultimately show ?thesis using resume_keys [of c st1 r] assms by simp
  qed
next
  case (TimerFires i)
  show ?thesis
  proof (cases "i < length (sleeping s) \<and> \<not> isLoading (widget s)")
    case False
    with TimerFires have "step s ev = s"
      by (auto simp: step_def loadSearchIndex_wake_def)
    with assms show ?thesis by simp
  next
    case True
    with TimerFires have "widget (step s ev)
        = progress_widget (resume (sleeping s ! i) (widget s) (Inr (searchIndex (widget s))))"
      by (simp add: step_def loadSearchIndex_wake_def widget_absorb)
    with resume_keys [of "sleeping s ! i" "widget s" "Inr (searchIndex (widget s))"] assms
    show ?thesis by simp
  qed
qed

lemma handleSearch_begin_options:
  "options (progress_widget (handleSearch_begin st v)) = options st"
  using handleSearch_begin_keys [of st v] by (elim conjE)

lemma handleSearch_begin_cache_keys:
  assumes "searchCache (progress_widget (handleSearch_begin st v)) k \<noteq> None"
  shows "(k = trim v \<and> minQueryLength (options st) \<le> length k) \<or> searchCache st k \<noteq> None"
proof -
  from handleSearch_begin_keys [of st v]
  have "\<forall>k. searchCache (progress_widget (handleSearch_begin st v)) k \<noteq> None
          \<longrightarrow> (k = trim v \<and> minQueryLength (options st) \<le> length k)
              \<or> searchCache st k \<noteq> None"
    by (elim conjE)
  then have "searchCache (progress_widget (handleSearch_begin st v)) k \<noteq> None
          \<longrightarrow> (k = trim v \<and> minQueryLength (options st) \<le> length k)
              \<or> searchCache st k \<noteq> None"
    by (rule spec)
  from this assms show ?thesis by (rule mp)
qed

lemma handleSearch_begin_pending:
  assumes "handleSearch_begin st v = Pending w c st'"
  shows "c = Search (trim v) \<and> minQueryLength (options st) \<le> length (trim v)
     \<and> (w = OnFetch \<longrightarrow> isLoading st')"
proof -
  from handleSearch_begin_keys [of st v]
  have "\<forall>w c st'. handleSearch_begin st v = Pending w c st'
          \<longrightarrow> c = Search (trim v) \<and> minQueryLength (options st) \<le> length (trim v)
              \<and> (w = OnFetch \<longrightarrow> isLoading st')"
    by (elim conjE)
  then have "handleSearch_begin st v = Pending w c st'
          \<longrightarrow> c = Search (trim v) \<and> minQueryLength (options st) \<le> length (trim v)
              \<and> (w = OnFetch \<longrightarrow> isLoading st')"
    by (elim allE)
  from this assms show ?thesis by (rule mp)
qed

lemma resume_cache_keys:
  assumes "searchCache (progress_widget (resume c st r)) k \<noteq> None"
  shows "c = Search k \<or> searchCache st k \<noteq> None"
proof -
  from resume_keys [of c st r]
  have "\<forall>k. searchCache (progress_widget (resume c st r)) k \<noteq> None
          \<longrightarrow> c = Search k \<or> searchCache st k \<noteq> None"
    by (elim conjE)
  then have "searchCache (progress_widget (resume c st r)) k \<noteq> None
          \<longrightarrow> c = Search k \<or> searchCache st k \<noteq> None"
    by (rule spec)
  from this assms show ?thesis by (rule mp)
qed

lemma resume_options: "options (progress_widget (resume c st r)) = options st"
  using resume_keys [of c st r] by (elim conjE)

lemma queries_longI:
  assumes "\<And>q. searchCache (widget s) q \<noteq> None
             \<Longrightarrow> minQueryLength (options (widget s)) \<le> length q"
    and "\<And>q. Search q \<in> set (sleeping s) \<Longrightarrow> minQueryLength (options (widget s)) \<le> length q"
    and "\<And>q. inflight s = Some (Search q) \<Longrightarrow> minQueryLength (options (widget s)) \<le> length q"
  shows "queries_long s"
  unfolding queries_long_def using assms by blast

lemma queries_long_construct: "queries_long (construct u input_el result_el)"
  by (simp add: queries_long_def construct_def Let_def absorb_def preloadSearchIndex_begin_def
      loadSearchIndex_begin_def preloadSearchIndex_resume_def showLoadingState_def)


lemma queries_longD:
  assumes "queries_long s"
  shows "searchCache (widget s) q \<noteq> None \<Longrightarrow> minQueryLength (options (widget s)) \<le> length q"
    and "Search q \<in> set (sleeping s) \<Longrightarrow> minQueryLength (options (widget s)) \<le> length q"
    and "inflight s = Some (Search q) \<Longrightarrow> minQueryLength (options (widget s)) \<le> length q"
  using assms unfolding queries_long_def by blast+

lemma queries_long_input:
  assumes ql: "queries_long s" and inp: "inputElement (widget s) = Some old"
  shows "queries_long (step s (Input v))"
proof -
  let ?w = "(widget s)\<lparr>inputElement := Some v\<rparr>"
  let ?p = "handleSearch_begin ?w v"
  from inp have st: "step s (Input v) = absorb s ?p" by (simp add: step_def)
  have o: "options (progress_widget ?p) = options (widget s)"
    using handleSearch_begin_options [of ?w v] by simp
  have ck: "\<And>q. searchCache (progress_widget ?p) q \<noteq> None
      \<Longrightarrow> minQueryLength (options (widget s)) \<le> length q"
  proof -
    fix q
    assume "searchCache (progress_widget ?p) q \<noteq> None"
    from handleSearch_begin_cache_keys [OF this]
    have "(q = trim v \<and> minQueryLength (options (widget s)) \<le> length q)
        \<or> searchCache (widget s) q \<noteq> None"
      by simp
    then show "minQueryLength (options (widget s)) \<le> length q"
    proof
      assume "q = trim v \<and> minQueryLength (options (widget s)) \<le> length q"
      then show ?thesis by (rule conjunct2)
    next
      assume "searchCache (widget s) q \<noteq> None"
      then show ?thesis by (rule queries_longD(1) [OF ql])
    qed
  qed
  show ?thesis
  proof (cases ?p)
    case (Settled r st')
    then have a: "absorb s ?p = s\<lparr>widget := st',
            unhandled := (case r of Inl e \<Rightarrow> unhandled s @ [e] | Inr _ \<Rightarrow> unhandled s)\<rparr>"
      by (simp add: absorb_def)
    from Settled have pw: "progress_widget ?p = st'" by (simp add: progress_widget_def)
    show ?thesis
      unfolding st a
    proof (rule queries_longI)
      fix q
      assume "searchCache (widget (s\<lparr>widget := st',
            unhandled := (case r of Inl e \<Rightarrow> unhandled s @ [e] | Inr _ \<Rightarrow> unhandled s)\<rparr>)) q \<noteq> None"
      then have "searchCache (progress_widget ?p) q \<noteq> None" by (simp add: pw)
      from ck [OF this] o pw
      show "minQueryLength (options (widget (s\<lparr>widget := st',
            unhandled := (case r of Inl e \<Rightarrow> unhandled s @ [e] | Inr _ \<Rightarrow> unhandled s)\<rparr>)))
              \<le> length q"
        by simp
    next
      fix q
      assume "Search q \<in> set (sleeping (s\<lparr>widget := st',
            unhandled := (case r of Inl e \<Rightarrow> unhandled s @ [e] | Inr _ \<Rightarrow> unhandled s)\<rparr>))"
      then have "Search q \<in> set (sleeping s)" by simp
      from queries_longD(2) [OF ql this] o pw
      show "minQueryLength (options (widget (s\<lparr>widget := st',
            unhandled := (case r of Inl e \<Rightarrow> unhandled s @ [e] | Inr _ \<Rightarrow> unhandled s)\<rparr>)))
              \<le> length q"
        by simp
    next
      fix q
      assume "inflight (s\<lparr>widget := st',
            unhandled := (case r of Inl e \<Rightarrow> unhandled s @ [e] | Inr _ \<Rightarrow> unhandled s)\<rparr>)
              = Some (Search q)"
      then have "inflight s = Some (Search q)" by simp
      from queries_longD(3) [OF ql this] o pw
      show "minQueryLength (options (widget (s\<lparr>widget := st',
            unhandled := (case r of Inl e \<Rightarrow> unhandled s @ [e] | Inr _ \<Rightarrow> unhandled s)\<rparr>)))
              \<le> length q"
        by simp
    qed
  next
    case (Pending wt c st')
    from handleSearch_begin_pending [OF Pending]
    have c: "c = Search (trim v)"
      and l: "minQueryLength (options (widget s)) \<le> length (trim v)"
      by simp_all
    from Pending have pw: "progress_widget ?p = st'" by (simp add: progress_widget_def)
    from o pw have o': "options st' = options (widget s)" by simp
    show ?thesis
    proof (cases wt)
      case OnFetch
      with Pending have a: "absorb s ?p = s\<lparr>widget := st', inflight := Some c\<rparr>"
        by (simp add: absorb_def)
      show ?thesis
        unfolding st a
      proof (rule queries_longI)
        fix q
        assume "searchCache (widget (s\<lparr>widget := st', inflight := Some c\<rparr>)) q \<noteq> None"
        then have "searchCache (progress_widget ?p) q \<noteq> None" by (simp add: pw)
        from ck [OF this] o'
        show "minQueryLength (options (widget (s\<lparr>widget := st', inflight := Some c\<rparr>))) \<le> length q"
          by simp
      next
        fix q
        assume "Search q \<in> set (sleeping (s\<lparr>widget := st', inflight := Some c\<rparr>))"
        then have "Search q \<in> set (sleeping s)" by simp
        from queries_longD(2) [OF ql this] o'
        show "minQueryLength (options (widget (s\<lparr>widget := st', inflight := Some c\<rparr>))) \<le> length q"
          by simp
      next
        fix q
        assume "inflight (s\<lparr>widget := st', inflight := Some c\<rparr>) = Some (Search q)"
        with c have "q = trim v" by simp
        with l o'
        show "minQueryLength (options (widget (s\<lparr>widget := st', inflight := Some c\<rparr>))) \<le> length q"
          by simp
      qed
    next
      case OnIdle
      with Pending have a: "absorb s ?p = s\<lparr>widget := st', sleeping := sleeping s @ [c]\<rparr>"
        by (simp add: absorb_def)
      show ?thesis
        unfolding st a
      proof (rule queries_longI)
        fix q
        assume "searchCache (widget (s\<lparr>widget := st', sleeping := sleeping s @ [c]\<rparr>)) q \<noteq> None"
        then have "searchCache (progress_widget ?p) q \<noteq> None" by (simp add: pw)
        from ck [OF this] o'
        show "minQueryLength (options (widget (s\<lparr>widget := st', sleeping := sleeping s @ [c]\<rparr>)))
                \<le> length q"
          by simp
      next
        fix q
        assume "Search q \<in> set (sleeping (s\<lparr>widget := st', sleeping := sleeping s @ [c]\<rparr>))"
        then have "Search q \<in> set (sleeping s) \<or> q = trim v" using c by auto
        then have "minQueryLength (options (widget s)) \<le> length q"
        proof
          assume "Search q \<in> set (sleeping s)"
          then show ?thesis by (rule queries_longD(2) [OF ql])
        next
          assume "q = trim v"
          with l show ?thesis by simp
        qed
        with o'
        show "minQueryLength (options (widget (s\<lparr>widget := st', sleeping := sleeping s @ [c]\<rparr>)))
                \<le> length q"
          by simp
      next
        fix q
        assume "inflight (s\<lparr>widget := st', sleeping := sleeping s @ [c]\<rparr>) = Some (Search q)"
        then have "inflight s = Some (Search q)" by simp
        from queries_longD(3) [OF ql this] o'
        show "minQueryLength (options (widget (s\<lparr>widget := st', sleeping := sleeping s @ [c]\<rparr>)))
                \<le> length q"
          by simp
      qed
    qed
  qed
qed


text \<open>A handler that goes on can only add its own query to the cache.\<close>

lemma queries_long_resumed:
  assumes ql: "queries_long s"
    and o1: "options st1 = options (widget s)"
    and c1: "searchCache st1 = searchCache (widget s)"
    and own: "\<And>q. c = Search q \<Longrightarrow> minQueryLength (options (widget s)) \<le> length q"
    and sl: "set sl \<subseteq> set (sleeping s)"
    and fl: "fl = None \<or> fl = inflight s"
  shows "queries_long (absorb (s\<lparr>sleeping := sl, inflight := fl\<rparr>) (resume c st1 r))"
proof -
  from resume_fulfils [of c st1 r] obtain st2 where
    rs: "resume c st1 r = Settled (Inr ()) st2" by blast
  then have pw: "progress_widget (resume c st1 r) = st2" by (simp add: progress_widget_def)
  from resume_options [of c st1 r] pw o1 have o2: "options st2 = options (widget s)" by simp
  from rs have a: "absorb (s\<lparr>sleeping := sl, inflight := fl\<rparr>) (resume c st1 r)
      = s\<lparr>sleeping := sl, inflight := fl, widget := st2\<rparr>"
    by (simp add: absorb_def)
  show ?thesis
    unfolding a
  proof (rule queries_longI)
    fix q
    assume "searchCache (widget (s\<lparr>sleeping := sl, inflight := fl, widget := st2\<rparr>)) q \<noteq> None"
    then have "searchCache (progress_widget (resume c st1 r)) q \<noteq> None" by (simp add: pw)
    from resume_cache_keys [OF this] have "c = Search q \<or> searchCache st1 q \<noteq> None" .
    then have "minQueryLength (options (widget s)) \<le> length q"
    proof
      assume "c = Search q"
      then show ?thesis by (rule own)
    next
      assume "searchCache st1 q \<noteq> None"
      with c1 have "searchCache (widget s) q \<noteq> None" by simp
      then show ?thesis by (rule queries_longD(1) [OF ql])
    qed
    with o2
    show "minQueryLength (options (widget (s\<lparr>sleeping := sl, inflight := fl, widget := st2\<rparr>)))
            \<le> length q"
      by simp
  next
    fix q
    assume "Search q \<in> set (sleeping (s\<lparr>sleeping := sl, inflight := fl, widget := st2\<rparr>))"
    with sl have "Search q \<in> set (sleeping s)" by auto
    from queries_longD(2) [OF ql this] o2
    show "minQueryLength (options (widget (s\<lparr>sleeping := sl, inflight := fl, widget := st2\<rparr>)))
            \<le> length q"
      by simp
  next
    fix q
    assume "inflight (s\<lparr>sleeping := sl, inflight := fl, widget := st2\<rparr>) = Some (Search q)"
    with fl have "inflight s = Some (Search q)" by auto
    from queries_longD(3) [OF ql this] o2
    show "minQueryLength (options (widget (s\<lparr>sleeping := sl, inflight := fl, widget := st2\<rparr>)))
            \<le> length q"
      by simp
  qed
qed

lemma queries_long_settles:
  assumes ql: "queries_long s" and fl: "inflight s = Some c"
  shows "queries_long (step s (FetchSettles out))"
proof -
  obtain r st1 where se: "loadSearchIndex_settle (widget s) out = (r, st1)"
    by (cases "loadSearchIndex_settle (widget s) out") auto
  from loadSearchIndex_settle_fields [OF se]
  have o1: "options st1 = options (widget s)" and c1: "searchCache st1 = searchCache (widget s)"
    by simp_all
  have own: "\<And>q. c = Search q \<Longrightarrow> minQueryLength (options (widget s)) \<le> length q"
    using queries_longD(3) [OF ql] fl by simp
  from fl se have "step s (FetchSettles out)
      = absorb (s\<lparr>sleeping := sleeping s, inflight := None\<rparr>) (resume c st1 r)"
    by (simp add: step_def)
  moreover have "queries_long (absorb (s\<lparr>sleeping := sleeping s, inflight := None\<rparr>) (resume c st1 r))"
    by (rule queries_long_resumed [OF ql o1 c1 own]) simp_all
  ultimately show ?thesis by simp
qed

lemma queries_long_timer:
  assumes ql: "queries_long s" and i: "i < length (sleeping s)" and nl: "\<not> isLoading (widget s)"
  shows "queries_long (step s (TimerFires i))"
proof -
  let ?c = "sleeping s ! i"
  let ?rest = "take i (sleeping s) @ drop (Suc i) (sleeping s)"
  from i have mem: "?c \<in> set (sleeping s)" by simp
  have own: "\<And>q. ?c = Search q \<Longrightarrow> minQueryLength (options (widget s)) \<le> length q"
    using queries_longD(2) [OF ql] mem by simp
  have sub: "set ?rest \<subseteq> set (sleeping s)"
    by (auto dest: in_set_takeD in_set_dropD)
  from i nl have "step s (TimerFires i)
      = absorb (s\<lparr>sleeping := ?rest, inflight := inflight s\<rparr>)
          (resume ?c (widget s) (Inr (searchIndex (widget s))))"
    by (simp add: step_def loadSearchIndex_wake_def)
  moreover have "queries_long (absorb (s\<lparr>sleeping := ?rest, inflight := inflight s\<rparr>)
          (resume ?c (widget s) (Inr (searchIndex (widget s)))))"
    by (rule queries_long_resumed [OF ql _ _ own sub]) simp_all
  ultimately show ?thesis by simp
qed

lemma queries_long_same_cache:
  assumes "queries_long s" and "options st' = options (widget s)"
    and "\<And>q. searchCache st' q \<noteq> None \<Longrightarrow> searchCache (widget s) q \<noteq> None"
  shows "queries_long (s\<lparr>widget := st'\<rparr>)"
proof (rule queries_longI)
  fix q
  assume "searchCache (widget (s\<lparr>widget := st'\<rparr>)) q \<noteq> None"
  then have "searchCache (widget s) q \<noteq> None" using assms(3) by simp
  from queries_longD(1) [OF assms(1) this] assms(2)
  show "minQueryLength (options (widget (s\<lparr>widget := st'\<rparr>))) \<le> length q" by simp
next
  fix q
  assume "Search q \<in> set (sleeping (s\<lparr>widget := st'\<rparr>))"
  then have "Search q \<in> set (sleeping s)" by simp
  from queries_longD(2) [OF assms(1) this] assms(2)
  show "minQueryLength (options (widget (s\<lparr>widget := st'\<rparr>))) \<le> length q" by simp
next
  fix q
  assume "inflight (s\<lparr>widget := st'\<rparr>) = Some (Search q)"
  then have "inflight s = Some (Search q)" by simp
  from queries_longD(3) [OF assms(1) this] assms(2)
  show "minQueryLength (options (widget (s\<lparr>widget := st'\<rparr>))) \<le> length q" by simp
qed

lemma clearSearch_cache:
  "searchCache (clearSearch st) = searchCache st \<and> options (clearSearch st) = options st"
  by (simp add: clearSearch_def clearResults_def Let_def split: option.splits)

lemma handleKeyNavigation_cache:
  "searchCache (handleKeyNavigation key st) = searchCache st
   \<and> options (handleKeyNavigation key st) = options st"
  by (simp add: handleKeyNavigation_def clearSearch_cache)

lemma queries_long_step:
  assumes ql: "queries_long s"
  shows "queries_long (step s ev)"
proof (cases ev)
  case (Input v)
  show ?thesis
  proof (cases "inputElement (widget s)")
    case None
    with Input ql show ?thesis by (simp add: step_def)
  next
    case (Some old)
    with Input queries_long_input [OF ql Some] show ?thesis by simp
  qed
next
  case (KeyDown key)
  have "queries_long (s\<lparr>widget := handleKeyNavigation key (widget s)\<rparr>)"
    by (rule queries_long_same_cache [OF ql]) (simp_all add: handleKeyNavigation_cache)
  with KeyDown ql show ?thesis by (simp add: step_def split: option.splits)
next
  case (Click target)
  have "queries_long (s\<lparr>widget := clearSearch (widget s)\<rparr>)"
    by (rule queries_long_same_cache [OF ql]) (simp_all add: clearSearch_cache)
  with Click ql show ?thesis by (simp add: step_def split: option.splits)
next
  case Destroy
  have "queries_long (s\<lparr>widget := destroy (widget s)\<rparr>)"
    by (rule queries_long_same_cache [OF ql])
       (simp_all add: destroy_def Let_def split: option.splits)
  with Destroy show ?thesis by (simp add: step_def)
next
  case (FetchSettles out)
  show ?thesis
  proof (cases "inflight s")
    case None
    with FetchSettles ql show ?thesis by (simp add: step_def)
  next
    case (Some c)
    with FetchSettles queries_long_settles [OF ql Some] show ?thesis by simp
  qed
next
  case (TimerFires i)
  show ?thesis
  proof (cases "i < length (sleeping s) \<and> \<not> isLoading (widget s)")
    case False
    with TimerFires have "step s ev = s"
      by (auto simp: step_def loadSearchIndex_wake_def)
    with ql show ?thesis by simp
  next
    case True
    with TimerFires queries_long_timer [OF ql] show ?thesis by simp
  qed
qed

lemma queries_long_run:
  assumes "queries_long s"
  shows "queries_long (run s evs)"
  using assms
proof (induction evs arbitrary: s)
  case Nil
  then show ?case by (simp add: run_def)
next
  case (Cons ev evs)
  from Cons.prems have "queries_long (step s ev)" by (rule queries_long_step)
  from Cons.IH [OF this] show ?case by (simp add: run_def)
qed

subsection \<open>The load in flight and the loaded index\<close>

lemma run_append: "run (run s evs) evs' = run s (evs @ evs')"
  by (simp add: run_def)

lemma run_single: "step s ev = run s [ev]"
  by (simp add: run_def)

lemma destroy_isLoading: "isLoading (destroy st) = isLoading st"
  by (simp add: destroy_def Let_def split: option.splits)

text \<open>The caller that waits for the fetch waits while \<open>isLoading\<close> is set.\<close>

lemma inflight_loading_step:
  assumes inv: "inflight s \<noteq> None \<longrightarrow> isLoading (widget s)"
  shows "inflight (step s ev) \<noteq> None \<longrightarrow> isLoading (widget (step s ev))"
proof (cases ev)
  case (Input v)
  show ?thesis
  proof (cases "inputElement (widget s)")
    case None
    with Input inv show ?thesis by (simp add: step_def)
  next
    case (Some old)
    let ?w = "(widget s)\<lparr>inputElement := Some v\<rparr>"
    let ?p = "handleSearch_begin ?w v"
    from Input Some have st: "step s ev = absorb s ?p" by (simp add: step_def)
    from handleSearch_begin_frame [of ?w v]
    have keep: "isLoading (widget s) \<longrightarrow> isLoading (progress_widget ?p)" by simp
    show ?thesis
    proof (cases ?p)
      case (Settled r st')
      with st keep inv show ?thesis by (simp add: absorb_def progress_widget_def)
    next
      case (Pending wt c st')
      from handleSearch_begin_pending [OF Pending]
      have f: "wt = OnFetch \<longrightarrow> isLoading st'" by simp
      from Pending st keep inv f show ?thesis
        by (cases wt) (simp_all add: absorb_def progress_widget_def)
    qed
  qed
next
  case (KeyDown key)
  with inv clearSearch_frame [of "widget s"] show ?thesis
    by (auto simp: step_def handleKeyNavigation_def split: option.splits)
next
  case (Click target)
  with inv clearSearch_frame [of "widget s"] show ?thesis
    by (auto simp: step_def split: option.splits)
next
  case Destroy
  with inv show ?thesis by (simp add: step_def destroy_isLoading)
next
  case (FetchSettles out)
  show ?thesis
  proof (cases "inflight s")
    case None
    with FetchSettles inv show ?thesis by (simp add: step_def)
  next
    case (Some c)
    obtain r st1 where se: "loadSearchIndex_settle (widget s) out = (r, st1)"
      by (cases "loadSearchIndex_settle (widget s) out") auto
    from resume_fulfils [of c st1 r] obtain st2 where
      "resume c st1 r = Settled (Inr ()) st2" by blast
    with FetchSettles Some se show ?thesis by (simp add: step_def absorb_def)
  qed
next
  case (TimerFires i)
  show ?thesis
  proof (cases "i < length (sleeping s) \<and> \<not> isLoading (widget s)")
    case False
    with TimerFires have "step s ev = s"
      by (auto simp: step_def loadSearchIndex_wake_def)
    with inv show ?thesis by simp
  next
    case True
    let ?c = "sleeping s ! i"
    let ?r = "Inr (searchIndex (widget s)) :: js_error + indexed list option"
    from resume_fulfils [of ?c "widget s" ?r] obtain st2 where
      rs: "resume ?c (widget s) ?r = Settled (Inr ()) st2" by blast
    with resume_frame [of ?c "widget s" ?r] have "isLoading st2 = isLoading (widget s)"
      by (simp add: progress_widget_def)
    with TimerFires True rs inv show ?thesis
      by (simp add: step_def loadSearchIndex_wake_def absorb_def)
  qed
qed

lemma inflight_loading_construct:
  "inflight (construct u input_el result_el) \<noteq> None
     \<longrightarrow> isLoading (widget (construct u input_el result_el))"
  by (simp add: construct_def Let_def absorb_def preloadSearchIndex_begin_def
      loadSearchIndex_begin_def preloadSearchIndex_resume_def showLoadingState_def)

lemma inflight_loading:
  "inflight (run (construct u input_el result_el) evs) \<noteq> None
     \<longrightarrow> isLoading (widget (run (construct u input_el result_el) evs))"
proof -
  have "\<And>s. inflight s \<noteq> None \<longrightarrow> isLoading (widget s)
      \<Longrightarrow> inflight (run s evs) \<noteq> None \<longrightarrow> isLoading (widget (run s evs))"
  proof (induction evs)
    case Nil
    then show ?case by (simp add: run_def)
  next
    case (Cons ev evs)
    from inflight_loading_step [OF Cons.prems]
    have "inflight (step s ev) \<noteq> None \<longrightarrow> isLoading (widget (step s ev))" .
    from Cons.IH [OF this] show ?case by (simp add: run_def)
  qed
  from this [OF inflight_loading_construct] show ?thesis .
qed

text \<open>Without a teardown a loaded index stays.\<close>

lemma run_keeps_index:
  assumes "page_inv s" and "Destroy \<notin> set evs" and "searchIndex (widget s) = Some idx"
  shows "searchIndex (widget (run s evs)) = Some idx"
  using assms
proof (induction evs arbitrary: s)
  case Nil
  then show ?case by (simp add: run_def)
next
  case (Cons ev evs)
  from Cons.prems(2) have ne: "ev \<noteq> Destroy" and rest: "Destroy \<notin> set evs" by auto
  from step_cached [OF Cons.prems(1) ne Cons.prems(3)]
  have i: "searchIndex (widget (step s ev)) = Some idx"
    using Cons.prems(3) by (simp add: same_or_cached_def)
  from Cons.prems(1) have "page_inv (step s ev)" by (rule page_inv_step)
  from Cons.IH [OF this rest i] show ?case by (simp add: run_def)
qed

text \<open>The widget after the fetch in flight has settled and its caller has gone on.\<close>

lemma settled_widget:
  assumes "inflight s = Some c"
  shows "isLoading (widget (step s (FetchSettles out))) = False
     \<and> searchIndex (widget (step s (FetchSettles out)))
         = (case fetch_result out of
              Inr data \<Rightarrow> Some (preprocessSearchData data)
            | Inl e \<Rightarrow> searchIndex (widget s))"
proof -
  obtain r st1 where se: "loadSearchIndex_settle (widget s) out = (r, st1)"
    by (cases "loadSearchIndex_settle (widget s) out") auto
  note sf = loadSearchIndex_settle_fields [OF se]
  from assms se have w: "widget (step s (FetchSettles out)) = progress_widget (resume c st1 r)"
    by (simp add: step_def widget_absorb)
  from sf have "\<not> isLoading st1" by simp
  moreover from sf have "searchIndex st1
         = (case fetch_result out of
              Inr data \<Rightarrow> Some (preprocessSearchData data)
            | Inl e \<Rightarrow> searchIndex (widget s))"
    by (cases "fetch_result out") simp_all
  ultimately show ?thesis
    using resume_frame [of c st1 r] by (simp add: w)
qed

subsection \<open>Claim about the preprocessing\<close>

text \<open>
  Claim C3, as amended. The index has one entry per input record, in order, \<open>ident\<close>
  being the position. \<open>content\<close> is the input content (empty when missing) with every
  match of \<open><[^>]+>\<close> removed, and holds no match any more; \<open>title\<close> is the input title,
  or \<open>Untitled\<close> when the title is missing or empty; \<open>contentLower\<close> is the lower-cased
  \<open>content\<close>. \<open>titleLower\<close> is the lower-cased input title, so it is the lower-cased
  \<open>title\<close> when the record has a title, and empty (not \<open>untitled\<close>) when it has none.
\<close>

theorem preprocessSearchData_fields:
  assumes "i < length data"
  shows "length (preprocessSearchData data) = length data
     \<and> ident (preprocessSearchData data ! i) = i
     \<and> url (preprocessSearchData data ! i) = raw_url (data ! i)
     \<and> title (preprocessSearchData data ! i) = or_else (raw_title (data ! i)) ''Untitled''
     \<and> content (preprocessSearchData data ! i) = strip_tags (or_else (raw_content (data ! i)) [])
     \<and> \<not> has_tag (content (preprocessSearchData data ! i))
     \<and> contentLower (preprocessSearchData data ! i)
         = toLowerCase (content (preprocessSearchData data ! i))
     \<and> titleLower (preprocessSearchData data ! i)
         = (if or_else (raw_title (data ! i)) [] = [] then []
            else toLowerCase (title (preprocessSearchData data ! i)))"
proof -
  have n: "preprocessSearchData data ! i = preprocessItem i (data ! i)"
    using assms by (rule preprocessSearchData_nth)
  have "length (preprocessSearchData data) = length data"
    by (simp add: preprocessSearchData_def)
  moreover have "\<not> has_tag (content (preprocessItem i (data ! i)))"
    by (simp add: preprocessItem_def no_tag_left)
  moreover have "titleLower (preprocessItem i (data ! i))
         = (if or_else (raw_title (data ! i)) [] = [] then []
            else toLowerCase (title (preprocessItem i (data ! i))))"
    by (simp add: preprocessItem_def or_else_def toLowerCase_def split: option.splits)
  ultimately show ?thesis
    unfolding n by (simp add: preprocessItem_def)
qed

text \<open>
  Witness for C3: the second example record has no title; its entry is titled
  \<open>Untitled\<close> and has an empty \<open>titleLower\<close>.
\<close>

theorem preprocessSearchData_fields_witness:
  "1 < length example_docs
   \<and> title (preprocessSearchData example_docs ! 1) = ''Untitled''
   \<and> titleLower (preprocessSearchData example_docs ! 1) = []
   \<and> content (preprocessSearchData example_docs ! 0) = ''Learn Go''"
proof -
  have h: "1 < length example_docs" by code_simp
  note t = preprocessSearchData_fields [OF h]
  from t have "title (preprocessSearchData example_docs ! 1)
      = or_else (raw_title (example_docs ! 1)) ''Untitled''"
    by (elim conjE)
  moreover have "or_else (raw_title (example_docs ! 1)) ''Untitled'' = ''Untitled''"
    by code_simp
  ultimately have a: "title (preprocessSearchData example_docs ! 1) = ''Untitled''"
    by (simp only:)
  have b: "titleLower (preprocessSearchData example_docs ! 1) = []" by code_simp
  have c: "content (preprocessSearchData example_docs ! 0) = ''Learn Go''" by code_simp
  from h a b c show ?thesis by (intro conjI)
qed

text \<open>
  Counterexample to C3 as stated: for the record without a title the stored title is
  \<open>Untitled\<close>, but \<open>titleLower\<close> is empty and not its lower-cased copy, so the token
  \<open>untitled\<close> is found in the lower-cased stored title and not in \<open>titleLower\<close>.
\<close>

theorem titleLower_not_lowercase_of_default_title:
  "raw_title (example_docs ! 1) = None
   \<and> title (preprocessSearchData example_docs ! 1) = ''Untitled''
   \<and> titleLower (preprocessSearchData example_docs ! 1)
       \<noteq> toLowerCase (title (preprocessSearchData example_docs ! 1))
   \<and> includes_str (toLowerCase (title (preprocessSearchData example_docs ! 1))) ''untitled''
   \<and> \<not> includes_str (titleLower (preprocessSearchData example_docs ! 1)) ''untitled''"
  by code_simp

subsection \<open>Claims about the query processor\<close>

text \<open>
  Claim C1, as amended. With \<open>maxResults\<close> at least one, the scan produces a ResultItem
  for exactly the first \<open>2 \<times> maxResults\<close> documents, in index order, whose score by the
  documented formula is positive, each with that score as its \<open>matchScore\<close>; what
  \<open>performSearch\<close> returns is taken from these, at most \<open>maxResults\<close> of them, and
  every item it returns has a positive \<open>matchScore\<close>, equal to the formula on the
  document the item was made from. Scores are exact rationals here; the rounding of the
  code's floating-point sums is not part of the statement.
\<close>

theorem result_items_have_positive_formula_score:
  assumes "0 < maxResults opts"
  shows "fst (scanIndex opts (keywords_of q) idx ([], [])) =
           map (\<lambda>d. mkResult d (spec_score d (keywords_of q)) (keywords_of q))
             (take (maxResults opts * 2) (filter (\<lambda>d. 0 < spec_score d (keywords_of q)) idx))
         \<and> set (performSearch opts q idx) \<subseteq> set (fst (scanIndex opts (keywords_of q) idx ([], [])))
         \<and> list_all (\<lambda>r. 0 < matchScore r
                        \<and> matchScore r = spec_score (indexed.truncate r) (keywords_of q))
             (performSearch opts q idx)
         \<and> length (performSearch opts q idx) \<le> maxResults opts"
proof -
  have a: "fst (scanIndex opts (keywords_of q) idx ([], [])) =
           map (\<lambda>d. mkResult d (spec_score d (keywords_of q)) (keywords_of q))
             (take (maxResults opts * 2) (filter (\<lambda>d. 0 < spec_score d (keywords_of q)) idx))"
    using scan_take [OF assms, of "keywords_of q" idx]
    by (simp add: calculateMatchScore_spec)
  have b: "set (performSearch opts q idx)
             \<subseteq> set (fst (scanIndex opts (keywords_of q) idx ([], [])))"
    by (rule set_performSearch)
  have c: "list_all (\<lambda>r. 0 < matchScore r
                        \<and> matchScore r = spec_score (indexed.truncate r) (keywords_of q))
             (performSearch opts q idx)"
    unfolding list_all_iff
  proof
    fix r
    assume "r \<in> set (performSearch opts q idx)"
    with b have "r \<in> set (fst (scanIndex opts (keywords_of q) idx ([], [])))" by blast
    from scan_members [OF this]
    show "0 < matchScore r \<and> matchScore r = spec_score (indexed.truncate r) (keywords_of q)"
      by (simp add: calculateMatchScore_spec)
  qed
  have d: "length (performSearch opts q idx) \<le> maxResults opts"
    by (simp add: performSearch_def Let_def)
  from a b c d show ?thesis by blast
qed

text \<open>
  Witness for C1: with \<open>maxResults = 1\<close> the query \<open>go\<close> on the example index yields
  items for the documents 0 and 1, of which the better one is returned.
\<close>

theorem result_items_have_positive_formula_score_witness:
  "0 < maxResults (options_max 1)
   \<and> map ident (fst (scanIndex (options_max 1) (keywords_of ''go'') example_index ([], []))) = [0, 1]
   \<and> map matchScore (performSearch (options_max 1) ''go'' example_index) = [62]"
proof -
  have h: "0 < maxResults (options_max 1)" by code_simp
  note t = result_items_have_positive_formula_score [OF h, of "''go''" example_index]
  have e: "map ident
      (map (\<lambda>d. mkResult d (spec_score d (keywords_of ''go'')) (keywords_of ''go''))
        (take (maxResults (options_max 1) * 2)
          (filter (\<lambda>d. 0 < spec_score d (keywords_of ''go'')) example_index))) = [0, 1]"
    by code_simp
  have p: "map matchScore (performSearch (options_max 1) ''go'' example_index) = [62]"
    by code_simp
  from t have "fst (scanIndex (options_max 1) (keywords_of ''go'') example_index ([], [])) =
      map (\<lambda>d. mkResult d (spec_score d (keywords_of ''go'')) (keywords_of ''go''))
        (take (maxResults (options_max 1) * 2)
          (filter (\<lambda>d. 0 < spec_score d (keywords_of ''go'')) example_index))"
    by (rule conjunct1)
  with e have "map ident (fst (scanIndex (options_max 1) (keywords_of ''go'') example_index ([], [])))
      = [0, 1]"
    by (simp only:)
  with h p show ?thesis by (intro conjI)
qed

text \<open>
  Counterexample to C1 as stated: document 2 of the example index scores positively for
  \<open>go\<close>, yet with \<open>maxResults = 1\<close> the scan stops after documents 0 and 1, and only
  document 0 is returned.
\<close>

theorem positive_score_without_result_item:
  "0 < calculateMatchScore (example_index ! 2) (keywords_of ''go'')
   \<and> map ident (fst (scanIndex (options_max 1) (keywords_of ''go'') example_index ([], []))) = [0, 1]
   \<and> map ident (performSearch (options_max 1) ''go'' example_index) = [0]"
  by code_simp

text \<open>
  Claim C4. The list \<open>performSearch\<close> returns is in descending order of \<open>matchScore\<close>;
  for every score, the returned items with that score are an initial part of the scan's
  items with that score, in the scan's order, which is the order of the index; and the
  list has at most \<open>maxResults\<close> items, 50 when the option is not given.
\<close>

theorem performSearch_sorted_stable_truncated:
  "sorted_wrt (\<lambda>a b. matchScore b \<le> matchScore a) (performSearch opts q idx)
   \<and> prefix (filter (\<lambda>r. matchScore r = s) (performSearch opts q idx))
            (filter (\<lambda>r. matchScore r = s) (fst (scanIndex opts (keywords_of q) idx ([], []))))
   \<and> subseq (map indexed.truncate (fst (scanIndex opts (keywords_of q) idx ([], [])))) idx
   \<and> length (performSearch opts q idx) \<le> maxResults opts
   \<and> maxResults (mk_options no_options) = 50"
proof -
  have "length (performSearch opts q idx) \<le> maxResults opts"
    by (simp add: performSearch_def Let_def)
  moreover have "maxResults (mk_options no_options) = 50"
    by (simp add: mk_options_def no_options_def)
  ultimately show ?thesis
    using sorted_performSearch [of opts q idx] stable_performSearch [of s opts q idx]
      subseq_scan [of opts "keywords_of q" idx]
    by (intro conjI)
qed

text \<open>
  Claim C5, as amended. With \<open>maxResults\<close> at least one: the documents scored are an
  initial part of the index; the accumulated items are those of the scored documents with
  a positive score, never more than \<open>2 \<times> maxResults\<close>; when a document is left unscored
  the count is exactly \<open>2 \<times> maxResults\<close>; and before the last scored document the count
  was still below it, so the scan stops at the first document that completes the cutoff.
\<close>

theorem scan_stops_at_cutoff:
  assumes "0 < maxResults opts"
  shows "prefix (snd (scanIndex opts ks idx ([], []))) idx
     \<and> map indexed.truncate (fst (scanIndex opts ks idx ([], [])))
         = filter (\<lambda>d. 0 < calculateMatchScore d ks) (snd (scanIndex opts ks idx ([], [])))
     \<and> length (fst (scanIndex opts ks idx ([], []))) \<le> maxResults opts * 2
     \<and> (snd (scanIndex opts ks idx ([], [])) \<noteq> idx
          \<longrightarrow> length (fst (scanIndex opts ks idx ([], []))) = maxResults opts * 2)
     \<and> length (filter (\<lambda>d. 0 < calculateMatchScore d ks)
                 (butlast (snd (scanIndex opts ks idx ([], []))))) < maxResults opts * 2"
proof -
  let ?pos = "\<lambda>d. 0 < calculateMatchScore d ks"
  let ?mk = "\<lambda>d. mkResult d (calculateMatchScore d ks) ks"
  from scan_top [OF assms, of idx ks] obtain pre post where
    i: "idx = pre @ post"
    and s: "scanIndex opts ks idx ([], []) = (map ?mk (filter ?pos pre), pre)"
    and c: "post \<noteq> [] \<longrightarrow> length (filter ?pos pre) = maxResults opts * 2"
    and le: "length (filter ?pos pre) \<le> maxResults opts * 2"
    and bl: "length (filter ?pos (butlast pre)) < maxResults opts * 2"
    by blast
  have 1: "prefix (snd (scanIndex opts ks idx ([], []))) idx"
    using i s by simp
  have 2: "map indexed.truncate (fst (scanIndex opts ks idx ([], [])))
         = filter ?pos (snd (scanIndex opts ks idx ([], [])))"
    using s by (simp add: truncate_mkResult comp_def)
  have 3: "length (fst (scanIndex opts ks idx ([], []))) \<le> maxResults opts * 2"
    using s le by simp
  have 4: "snd (scanIndex opts ks idx ([], [])) \<noteq> idx
          \<longrightarrow> length (fst (scanIndex opts ks idx ([], []))) = maxResults opts * 2"
    using s i c by auto
  have 5: "length (filter ?pos (butlast (snd (scanIndex opts ks idx ([], []))))) < maxResults opts * 2"
    using s bl by simp
  from 1 2 3 4 5 show ?thesis by (intro conjI)
qed

text \<open>
  Witness for C5: with \<open>maxResults = 1\<close> the scan of the example index for \<open>go\<close>
  scores documents 0 and 1, accumulates both and never reaches document 2.
\<close>

theorem scan_stops_at_cutoff_witness:
  "0 < maxResults (options_max 1)
   \<and> length (fst (scanIndex (options_max 1) (keywords_of ''go'') example_index ([], [])))
       \<le> maxResults (options_max 1) * 2
   \<and> map ident (snd (scanIndex (options_max 1) (keywords_of ''go'') example_index ([], []))) = [0, 1]
   \<and> length example_index = 3"
proof -
  have h: "0 < maxResults (options_max 1)" by code_simp
  note t = scan_stops_at_cutoff [OF h, of "keywords_of ''go''" example_index]
  from t have b: "length (fst (scanIndex (options_max 1) (keywords_of ''go'') example_index ([], [])))
       \<le> maxResults (options_max 1) * 2"
    by (elim conjE)
  have s: "map ident (snd (scanIndex (options_max 1) (keywords_of ''go'') example_index ([], [])))
       = [0, 1]"
    by code_simp
  have l: "length example_index = 3" by code_simp
  from h b s l show ?thesis by (intro conjI)
qed

text \<open>
  Counterexample to C5 as stated: \<open>maxResults = 0\<close> makes the cutoff \<open>0\<close>, but the test
  stands behind the push, so the first document is scored and its item accumulated.
\<close>

theorem scan_exceeds_zero_cutoff:
  "maxResults (options_max 0) * 2 = 0
   \<and> map ident (fst (scanIndex (options_max 0) (keywords_of ''go'') example_index ([], []))) = [0]
   \<and> map ident (snd (scanIndex (options_max 0) (keywords_of ''go'') example_index ([], []))) = [0]"
  by code_simp

subsection \<open>Claims about the loader\<close>

lemma resume_error_view:
  assumes "resume c st (Inl e) = Settled res st'" and "resultElement st = Some ErrorView"
  shows "resultElement st' = Some ErrorView \<and> isLoading st' = isLoading st"
  using assms
  by (cases c)
     (auto simp: resume_def preloadSearchIndex_resume_def handleSearch_resume_def
        handleSearch_try_def showErrorState_def setView_def)

text \<open>
  Claim C7, as amended. While a load is in flight, a call of the loader starts no fetch
  and changes nothing (no event that finds a load in flight issues a fetch): the call
  waits, polling every 100 ms, and returns \<open>this.searchIndex\<close> as it stands at its
  first poll that finds \<open>isLoading\<close> false. When the load succeeds, a waiting caller gets
  the same index as the caller that started the load, at whatever later time it polls,
  provided no teardown comes in between. When the load is aborted the caller that
  started it gets \<open>null\<close>, and when it fails that caller gets the error (its promise is
  rejected); a waiting caller whose poll is the next event gets \<open>null\<close> in both cases.
\<close>

theorem waiting_caller_shares_the_load:
  assumes "s = run (construct u input_el result_el) evs0"
    and "inflight s = Some c"
    and "Destroy \<notin> set evs"
  shows "loadSearchIndex_begin (widget s) = (MustWait, widget s)
     \<and> fetches (widget (step s ev)) = fetches (widget s)
     \<and> loadSearchIndex_wake (widget s) = None
     \<and> fst (loadSearchIndex_settle (widget s) out)
         = (case fetch_result out of
              Inr data \<Rightarrow> Inr (Some (preprocessSearchData data))
            | Inl e \<Rightarrow> if e = AbortError then Inr None else Inl e)
     \<and> loadSearchIndex_wake (widget (step s (FetchSettles out)))
         = Some (case fetch_result out of
                   Inr data \<Rightarrow> Some (preprocessSearchData data)
                 | Inl e \<Rightarrow> None)
     \<and> (case fetch_result out of
          Inr data \<Rightarrow>
            loadSearchIndex_wake (widget (run (step s (FetchSettles out)) evs))
              = Some (Some (preprocessSearchData data))
        | Inl e \<Rightarrow> True)
     \<and> loadSearchIndex_wake (widget (run (step s (FetchSettles out)) later))
         = (if isLoading (widget (run (step s (FetchSettles out)) later)) then None
            else Some (searchIndex (widget (run (step s (FetchSettles out)) later))))"
proof -
  have "page_inv (construct u input_el result_el)" by (rule page_inv_construct)
  then have inv: "page_inv s" unfolding assms(1) by (rule page_inv_run)
  with assms(2) have none: "searchIndex (widget s) = None" by (simp add: page_inv_def)
  from inflight_loading [of u input_el result_el evs0] assms(1,2)
  have load: "isLoading (widget s)" by simp
  have 1: "loadSearchIndex_begin (widget s) = (MustWait, widget s)"
    using none load by (simp add: loadSearchIndex_begin_def)
  have 2: "fetches (widget (step s ev)) = fetches (widget s)"
    using load by (rule no_fetch_while_loading)
  have 3: "loadSearchIndex_wake (widget s) = None"
    using load by (simp add: loadSearchIndex_wake_def)
  obtain r st1 where se: "loadSearchIndex_settle (widget s) out = (r, st1)"
    by (cases "loadSearchIndex_settle (widget s) out") auto
  have 4: "fst (loadSearchIndex_settle (widget s) out)
         = (case fetch_result out of
              Inr data \<Rightarrow> Inr (Some (preprocessSearchData data))
            | Inl e \<Rightarrow> if e = AbortError then Inr None else Inl e)"
    using loadSearchIndex_settle_fields [OF se] se
    by (cases "fetch_result out") auto
  note sw = settled_widget [OF assms(2), of out]
  have 5: "loadSearchIndex_wake (widget (step s (FetchSettles out)))
         = Some (case fetch_result out of
                   Inr data \<Rightarrow> Some (preprocessSearchData data)
                 | Inl e \<Rightarrow> None)"
    using sw none by (cases "fetch_result out") (simp_all add: loadSearchIndex_wake_def)
  have 6: "(case fetch_result out of
          Inr data \<Rightarrow>
            loadSearchIndex_wake (widget (run (step s (FetchSettles out)) evs))
              = Some (Some (preprocessSearchData data))
        | Inl e \<Rightarrow> True)"
  proof (cases "fetch_result out")
    case (Inl e)
    then show ?thesis by simp
  next
    case (Inr data)
    let ?s1 = "step s (FetchSettles out)"
    from sw Inr have i1: "searchIndex (widget ?s1) = Some (preprocessSearchData data)"
      by simp
    from inv have inv1: "page_inv ?s1" by (rule page_inv_step)
    from run_keeps_index [OF inv1 assms(3) i1]
    have i2: "searchIndex (widget (run ?s1 evs)) = Some (preprocessSearchData data)" .
    have "run ?s1 evs = run (construct u input_el result_el) (evs0 @ FetchSettles out # evs)"
      unfolding assms(1) by (simp add: run_def)
    with loading_no_index [of u input_el result_el "evs0 @ FetchSettles out # evs"] i2
    have "\<not> isLoading (widget (run ?s1 evs))" by auto
    with i2 Inr show ?thesis by (simp add: loadSearchIndex_wake_def)
  qed
  have 7: "loadSearchIndex_wake (widget (run (step s (FetchSettles out)) later))
         = (if isLoading (widget (run (step s (FetchSettles out)) later)) then None
            else Some (searchIndex (widget (run (step s (FetchSettles out)) later))))"
    by (simp add: loadSearchIndex_wake_def)
  from 1 2 3 4 5 6 7 show ?thesis by (intro conjI)
qed

text \<open>
  Witness for C7: on the example page the preload is in flight when \<open>go\<close> is entered;
  the handler waits. The response arrives, the handler wakes and searches, another query
  is entered: a poll made then still finds the index the load produced.
\<close>

theorem waiting_caller_shares_the_load_witness:
  "inflight (run example_page [Input ''go'']) = Some Preload
   \<and> Destroy \<notin> set [TimerFires 0, Input ''rust'']
   \<and> loadSearchIndex_begin (widget (run example_page [Input ''go'']))
       = (MustWait, widget (run example_page [Input ''go'']))
   \<and> fst (loadSearchIndex_settle (widget (run example_page [Input ''go''])) example_response)
       = Inr (Some example_index)
   \<and> loadSearchIndex_wake
        (widget (run (step (run example_page [Input ''go'']) (FetchSettles example_response))
                   [TimerFires 0, Input ''rust'']))
       = Some (Some example_index)"
proof -
  let ?s = "run example_page [Input ''go'']"
  have h0: "?s = run (construct no_options (Some []) (Some Blank)) [Input ''go'']"
    by (simp add: example_page_def)
  have h1: "inflight ?s = Some Preload" by code_simp
  have h2: "Destroy \<notin> set [TimerFires 0, Input ''rust'']" by simp
  note t = waiting_caller_shares_the_load
    [OF h0 h1 h2, where out = example_response and ev = "TimerFires 0" and later = "[]"]
  have f: "fetch_result example_response = Inr example_docs"
    by (simp add: fetch_result_def example_response_def response_ok_def)
  from t have a: "loadSearchIndex_begin (widget ?s) = (MustWait, widget ?s)"
    by (elim conjE)
  from t f have b: "fst (loadSearchIndex_settle (widget ?s) example_response)
      = Inr (Some example_index)"
    by (simp add: example_index_def)
  from t f have c: "loadSearchIndex_wake
        (widget (run (step ?s (FetchSettles example_response)) [TimerFires 0, Input ''rust'']))
       = Some (Some example_index)"
    by (simp add: example_index_def)
  from h1 h2 a b c show ?thesis by (intro conjI)
qed

text \<open>
  Counterexample to C7 as stated: the load in flight on the example page ends with
  HTTP 500. The call that started it is rejected with the error, the waiting call
  returns \<open>null\<close>: the two do not observe the same result.
\<close>

theorem waiting_caller_misses_the_error:
  "isLoading (widget (run example_page [Input ''go'']))
   \<and> sleeping (run example_page [Input ''go'']) = [Search ''go'']
   \<and> fst (loadSearchIndex_settle (widget (run example_page [Input ''go'']))
            (FetchResponse 500 JsonNotArray)) = Inl (HttpError 500)
   \<and> loadSearchIndex_wake
        (snd (loadSearchIndex_settle (widget (run example_page [Input ''go'']))
               (FetchResponse 500 JsonNotArray))) = Some None"
  by code_simp

text \<open>
  Why the conditions on the waiting caller are needed. A teardown between the end of a
  successful load and the poll leaves the waiting caller with \<open>null\<close>; and when a failed
  load is followed by a new one before the poll, the caller goes on waiting and gets
  the index of the new load.
\<close>

lemma waiting_caller_after_teardown:
  "sleeping (run example_page [Input ''go'', FetchSettles example_response, Destroy])
     = [Search ''go'']
   \<and> loadSearchIndex_wake
        (widget (run example_page [Input ''go'', FetchSettles example_response, Destroy]))
       = Some None"
  by code_simp

lemma waiting_caller_after_new_load:
  "sleeping (run example_page
       [Input ''go'', FetchSettles (FetchResponse 500 JsonNotArray), Input ''rust''])
     = [Search ''go'']
   \<and> loadSearchIndex_wake (widget (run example_page
       [Input ''go'', FetchSettles (FetchResponse 500 JsonNotArray), Input ''rust''])) = None
   \<and> loadSearchIndex_wake (widget (run example_page
       [Input ''go'', FetchSettles (FetchResponse 500 JsonNotArray), Input ''rust'',
        FetchSettles example_response])) = Some (Some example_index)"
  by code_simp

text \<open>
  Claim C8. While a fetch is in flight, whoever started it (the preload or a search),
  a response whose status is not 2xx makes the load fail with the HTTP error; the
  container, when there is one, then shows the error state, the load is over, and the
  promise of the handler is fulfilled, so no rejection is left unhandled (none ever is,
  whatever the events: \<open>never_unhandled\<close>).
\<close>

theorem failed_fetch_shows_error_state:
  assumes "inflight s = Some c" and "\<not> response_ok status"
    and "resultElement (widget s) \<noteq> None"
  shows "fst (loadSearchIndex_settle (widget s) (FetchResponse status body))
           = Inl (HttpError status)
     \<and> resultElement (widget (step s (FetchSettles (FetchResponse status body))))
         = Some ErrorView
     \<and> unhandled (step s (FetchSettles (FetchResponse status body))) = unhandled s
     \<and> \<not> isLoading (widget (step s (FetchSettles (FetchResponse status body))))
     \<and> inflight (step s (FetchSettles (FetchResponse status body))) = None"
proof -
  let ?out = "FetchResponse status body"
  have fr: "fetch_result ?out = Inl (HttpError status)"
    using assms(2) by (simp add: fetch_result_def)
  obtain r st1 where se: "loadSearchIndex_settle (widget s) ?out = (r, st1)"
    by (cases "loadSearchIndex_settle (widget s) ?out") auto
  note sf = loadSearchIndex_settle_fields [OF se]
  from sf fr have r: "r = Inl (HttpError status)" by simp
  from sf fr assms(3) have v1: "resultElement st1 = Some ErrorView" by auto
  from sf have l1: "\<not> isLoading st1" by simp
  from resume_fulfils [of c st1 r] obtain st2 where
    rs: "resume c st1 r = Settled (Inr ()) st2" by blast
  from resume_error_view [OF rs [unfolded r] v1] l1
  have v2: "resultElement st2 = Some ErrorView" and l2: "\<not> isLoading st2" by simp_all
  from assms(1) se rs
  have st: "step s (FetchSettles ?out) = absorb (s\<lparr>inflight := None\<rparr>) (Settled (Inr ()) st2)"
    by (simp add: step_def)
  from r se have 1: "fst (loadSearchIndex_settle (widget s) ?out) = Inl (HttpError status)"
    by simp
  from v2 l2 have "resultElement (widget (step s (FetchSettles ?out))) = Some ErrorView
     \<and> unhandled (step s (FetchSettles ?out)) = unhandled s
     \<and> \<not> isLoading (widget (step s (FetchSettles ?out)))
     \<and> inflight (step s (FetchSettles ?out)) = None"
    unfolding st by (simp add: absorb_def)
  with 1 show ?thesis by simp
qed

text \<open>
  Witness for C8: HTTP 500 for the fetch a search started on the page made with
  \<open>preload: false\<close>.
\<close>

theorem failed_fetch_shows_error_state_witness:
  "inflight (run lazy_page [Input ''go'']) = Some (Search ''go'')
   \<and> \<not> response_ok 500
   \<and> resultElement (widget (run lazy_page [Input ''go''])) \<noteq> None
   \<and> resultElement (widget (step (run lazy_page [Input ''go''])
                               (FetchSettles (FetchResponse 500 JsonNotArray))))
       = Some ErrorView
   \<and> unhandled (step (run lazy_page [Input ''go''])
                   (FetchSettles (FetchResponse 500 JsonNotArray))) = []"
proof -
  let ?s = "run lazy_page [Input ''go'']"
  have h1: "inflight ?s = Some (Search ''go'')" by code_simp
  have h2: "\<not> response_ok 500" by (simp add: response_ok_def)
  have h3: "resultElement (widget ?s) \<noteq> None" by code_simp
  note t = failed_fetch_shows_error_state [OF h1 h2 h3, of JsonNotArray]
  have u: "unhandled ?s = []" by code_simp
  from t have a: "resultElement (widget (step ?s (FetchSettles (FetchResponse 500 JsonNotArray))))
       = Some ErrorView"
    by (elim conjE)
  from t u have b: "unhandled (step ?s (FetchSettles (FetchResponse 500 JsonNotArray))) = []"
    by simp
  from h1 h2 h3 a b show ?thesis by (intro conjI)
qed

text \<open>
  Claim C9, as amended. An aborted fetch is not an error: the load resolves to \<open>null\<close>,
  logs the cancellation, resets \<open>isLoading\<close> and \<open>abortController\<close>, and leaves the
  index and the container as they were; a later call of the loader then starts a new
  fetch. The container is not touched, so the loading indicator put there when the load
  began stays until a later action replaces it.
\<close>

theorem aborted_load_resets_the_loader:
  assumes "fetch_result out = Inl AbortError"
  shows "fst (loadSearchIndex_settle st out) = Inr None
     \<and> \<not> isLoading (snd (loadSearchIndex_settle st out))
     \<and> abortController (snd (loadSearchIndex_settle st out)) = None
     \<and> searchIndex (snd (loadSearchIndex_settle st out)) = searchIndex st
     \<and> resultElement (snd (loadSearchIndex_settle st out)) = resultElement st
     \<and> console (snd (loadSearchIndex_settle st out))
         = console st @ [ConsoleLog ''Search index loading cancelled'']
     \<and> (searchIndex st = None \<longrightarrow>
          fst (loadSearchIndex_begin (snd (loadSearchIndex_settle st out))) = Fetching
          \<and> fetches (snd (loadSearchIndex_begin (snd (loadSearchIndex_settle st out))))
              = fetches st + 1)"
  using assms
  by (simp add: loadSearchIndex_settle_def loadSearchIndex_begin_def showLoadingState_def)

text \<open>
  Witness for C9: the fetch of the preload is aborted by \<open>destroy()\<close>; the loader is
  reset and the next call fetches again.
\<close>

theorem aborted_load_resets_the_loader_witness:
  "fetch_result (FetchFails AbortError) = Inl AbortError
   \<and> abortController (widget (run example_page [Destroy])) = Some True
   \<and> fst (loadSearchIndex_settle (widget (run example_page [Destroy])) (FetchFails AbortError))
       = Inr None
   \<and> \<not> isLoading (snd (loadSearchIndex_settle (widget (run example_page [Destroy]))
                         (FetchFails AbortError)))
   \<and> fst (loadSearchIndex_begin
            (snd (loadSearchIndex_settle (widget (run example_page [Destroy]))
                   (FetchFails AbortError)))) = Fetching"
proof -
  let ?st = "widget (run example_page [Destroy])"
  have h: "fetch_result (FetchFails AbortError) = Inl AbortError"
    by (simp add: fetch_result_def)
  note t = aborted_load_resets_the_loader [OF h, of ?st]
  have a: "abortController ?st = Some True" by code_simp
  have n: "searchIndex ?st = None" by code_simp
  from t have b: "fst (loadSearchIndex_settle ?st (FetchFails AbortError)) = Inr None"
    by (elim conjE)
  from t have c: "\<not> isLoading (snd (loadSearchIndex_settle ?st (FetchFails AbortError)))"
    by (elim conjE)
  from t n have d: "fst (loadSearchIndex_begin
            (snd (loadSearchIndex_settle ?st (FetchFails AbortError)))) = Fetching"
    by simp
  from h a b c d show ?thesis by (intro conjI)
qed

text \<open>
  Counterexample to C9 as stated: the page is constructed (the preload shows the loading
  state), torn down, and the aborted fetch settles. The load is over and no handler is
  left waiting, yet the container still shows the loading state.
\<close>

theorem loading_state_survives_abort:
  "resultElement (widget (run example_page [Destroy, FetchSettles (FetchFails AbortError)]))
     = Some LoadingView
   \<and> \<not> isLoading (widget (run example_page [Destroy, FetchSettles (FetchFails AbortError)]))
   \<and> inflight (run example_page [Destroy, FetchSettles (FetchFails AbortError)]) = None
   \<and> sleeping (run example_page [Destroy, FetchSettles (FetchFails AbortError)]) = []"
  by code_simp

subsection \<open>Claims about the cache and the staleness guard\<close>

text \<open>
  Claim C2 fails on the code for a later input shorter than \<open>minQueryLength\<close>. On the
  example page \<open>go\<close> is entered while the preload is in flight, then the input is cut
  down to \<open>g\<close>: the container is cleared, but \<open>currentQuery\<close> stays \<open>go\<close>. When the
  index has arrived and the handler of \<open>go\<close> wakes, it passes the guard and renders the
  three results of \<open>go\<close>, although the input holds \<open>g\<close>.
\<close>

theorem stale_results_rendered_after_short_input:
  "inputElement (widget (run example_page [Input ''go'', Input ''g''])) = Some ''g''
   \<and> resultElement (widget (run example_page [Input ''go'', Input ''g''])) = Some Blank
   \<and> currentQuery (widget (run example_page [Input ''go'', Input ''g''])) = ''go''
   \<and> resultElement (widget (run example_page
        [Input ''go'', Input ''g'', FetchSettles example_response, TimerFires 0]))
       = Some (ResultsView (performSearch (mk_options no_options) ''go'' example_index))
   \<and> inputElement (widget (run example_page
        [Input ''go'', Input ''g'', FetchSettles example_response, TimerFires 0])) = Some ''g''
   \<and> map ident (performSearch (mk_options no_options) ''go'' example_index) = [0, 1, 2]"
  by code_simp

text \<open>
  The guard does its work for a later query of valid length and for the clear action:
  both change \<open>currentQuery\<close>, after which the earlier handler returns without a trace.
\<close>

lemma later_query_sets_currentQuery:
  assumes "minQueryLength (options st) \<le> length (trim v)"
  shows "currentQuery (progress_widget (handleSearch_begin st v)) = trim v"
proof -
  let ?q = "trim v"
  let ?st1 = "st\<lparr>currentQuery := ?q\<rparr>"
  show ?thesis
  proof (cases "searchCache st ?q")
    case (Some rs)
    with assms show ?thesis
      by (simp add: handleSearch_begin_def Let_def progress_widget_def)
  next
    case None
    from loadSearchIndex_begin_cases [of ?st1]
    consider idx where "loadSearchIndex_begin ?st1 = (Ready idx, ?st1)"
      | "loadSearchIndex_begin ?st1 = (MustWait, ?st1)"
      | "loadSearchIndex_begin ?st1 =
           (Fetching, (showLoadingState (?st1\<lparr>isLoading := True\<rparr>))
                        \<lparr>abortController := Some False, fetches := fetches ?st1 + 1\<rparr>)"
      by blast
    then show ?thesis
    proof cases
      case 1
      with assms None show ?thesis
        by (simp add: handleSearch_begin_def Let_def progress_widget_def
            handleSearch_resume_def handleSearch_try_def)
    next
      case 2
      with assms None show ?thesis
        by (simp add: handleSearch_begin_def Let_def progress_widget_def)
    next
      case 3
      with assms None show ?thesis
        by (simp add: handleSearch_begin_def Let_def progress_widget_def showLoadingState_def)
    qed
  qed
qed

lemma clearSearch_resets_currentQuery: "currentQuery (clearSearch st) = []"
  by (simp add: clearSearch_def clearResults_def Let_def)

lemma stale_handler_changes_nothing:
  assumes "currentQuery st \<noteq> q"
  shows "handleSearch_resume st q (Inr oi) = (Inr (), st)"
  using assms
  by (cases oi) (simp_all add: handleSearch_resume_def handleSearch_try_def)

text \<open>
  Claim C6, as amended. Take any event of a session in which \<open>performSearch\<close> runs for
  the trimmed query \<open>q\<close> (the number of searches moves and \<open>q\<close> is the current query
  afterwards). Then the list it computed on the loaded index is in the cache under
  \<open>q\<close>. After any further events without a teardown the cache still holds that list
  for \<open>q\<close>, and a call of \<open>handleSearch\<close> with an input that trims to \<open>q\<close> settles at
  once: it displays exactly that list, makes \<open>q\<close> the current query and changes nothing
  else, so \<open>performSearch\<close> and \<open>fetch\<close> are not called.
\<close>

theorem repeated_query_served_from_cache:
  assumes "s = run (construct u input_el result_el) evs0"
    and "scorings (widget (step s ev)) \<noteq> scorings (widget s)"
    and "currentQuery (widget (step s ev)) = q"
    and "Destroy \<notin> set evs"
    and "trim v = q"
  shows "\<exists>idx rs.
       searchIndex (widget (step s ev)) = Some idx
     \<and> rs = performSearch (options (widget (step s ev))) q idx
     \<and> searchCache (widget (step s ev)) q = Some rs
     \<and> searchCache (widget (run (step s ev) evs)) q = Some rs
     \<and> handleSearch_begin (widget (run (step s ev) evs)) v
         = Settled (Inr ())
             (displayResults rs q ((widget (run (step s ev) evs))\<lparr>currentQuery := q\<rparr>))
     \<and> scorings (displayResults rs q ((widget (run (step s ev) evs))\<lparr>currentQuery := q\<rparr>))
         = scorings (widget (run (step s ev) evs))
     \<and> fetches (displayResults rs q ((widget (run (step s ev) evs))\<lparr>currentQuery := q\<rparr>))
         = fetches (widget (run (step s ev) evs))
     \<and> resultElement (displayResults rs q ((widget (run (step s ev) evs))\<lparr>currentQuery := q\<rparr>))
         = map_option (\<lambda>_. if rs = [] then EmptyView q else ResultsView rs)
             (resultElement (widget (run (step s ev) evs)))"
proof -
  let ?s1 = "step s ev"
  let ?s2 = "run ?s1 evs"
  have "page_inv (construct u input_el result_el)" by (rule page_inv_construct)
  then have "page_inv s" unfolding assms(1) by (rule page_inv_run)
  then have inv1: "page_inv ?s1" by (rule page_inv_step)
  have "queries_long (construct u input_el result_el)" by (rule queries_long_construct)
  then have "queries_long s" unfolding assms(1) by (rule queries_long_run)
  then have ql1: "queries_long ?s1" by (rule queries_long_step)
  from step_scored [OF assms(2)] assms(3) have "searchCache (widget ?s1) q \<noteq> None" by simp
  then obtain rs where c1: "searchCache (widget ?s1) q = Some rs" by auto
  from inv1 have "cache_consistent (widget ?s1)" by (simp add: page_inv_def)
  with c1 have "\<exists>idx. searchIndex (widget ?s1) = Some idx
      \<and> rs = performSearch (options (widget ?s1)) q idx"
    unfolding cache_consistent_def by blast
  then obtain idx where i1: "searchIndex (widget ?s1) = Some idx"
    and rs: "rs = performSearch (options (widget ?s1)) q idx"
    by blast
  from c1 have "searchCache (widget ?s1) q \<noteq> None" by simp
  from queries_longD(1) [OF ql1 this]
  have len: "minQueryLength (options (widget ?s1)) \<le> length q" .
  from run_keeps_cached [OF inv1 assms(4) c1]
  have k: "searchCache (widget ?s2) q = Some rs"
    and o: "options (widget ?s2) = options (widget ?s1)"
    by simp_all
  from len o have long: "\<not> length q < minQueryLength (options (widget ?s2))" by simp
  have b: "handleSearch_begin (widget ?s2) v
         = Settled (Inr ()) (displayResults rs q ((widget ?s2)\<lparr>currentQuery := q\<rparr>))"
    using k long assms(5) by (simp add: handleSearch_begin_def Let_def)
  have vw: "resultElement (displayResults rs q ((widget ?s2)\<lparr>currentQuery := q\<rparr>))
         = map_option (\<lambda>_. if rs = [] then EmptyView q else ResultsView rs)
             (resultElement (widget ?s2))"
    by (simp add: displayResults_def showEmptyState_def setView_resultElement)
  have sc: "scorings (displayResults rs q ((widget ?s2)\<lparr>currentQuery := q\<rparr>))
         = scorings (widget ?s2)"
    by simp
  have ft: "fetches (displayResults rs q ((widget ?s2)\<lparr>currentQuery := q\<rparr>))
         = fetches (widget ?s2)"
    by simp
  from i1 rs c1 k b sc ft vw show ?thesis by blast
qed

text \<open>
  Witness for C6: the index is loaded, then \<open>go\<close> is entered and searched; after
  another query and the Escape key, entering \<open>go\<close> again (with blanks around it) shows
  the stored list, the number of searches staying at two.
\<close>

theorem repeated_query_served_from_cache_witness:
  "scorings (widget (step (run example_page [FetchSettles example_response]) (Input ''go'')))
     \<noteq> scorings (widget (run example_page [FetchSettles example_response]))
   \<and> currentQuery (widget (step (run example_page [FetchSettles example_response])
                              (Input ''go''))) = ''go''
   \<and> Destroy \<notin> set [Input ''rust'', KeyDown ''Escape'']
   \<and> trim '' go '' = ''go''
   \<and> scorings (widget (run (step (run example_page [FetchSettles example_response])
                               (Input ''go''))
                         [Input ''rust'', KeyDown ''Escape''])) = 2
   \<and> handleSearch_begin
        (widget (run (step (run example_page [FetchSettles example_response]) (Input ''go''))
                   [Input ''rust'', KeyDown ''Escape''])) '' go ''
       = Settled (Inr ())
           (displayResults (performSearch (mk_options no_options) ''go'' example_index) ''go''
              ((widget (run (step (run example_page [FetchSettles example_response])
                                (Input ''go''))
                          [Input ''rust'', KeyDown ''Escape'']))\<lparr>currentQuery := ''go''\<rparr>))"
proof -
  let ?s = "run example_page [FetchSettles example_response]"
  let ?s1 = "step ?s (Input ''go'')"
  let ?s2 = "run ?s1 [Input ''rust'', KeyDown ''Escape'']"
  have h0: "?s = run (construct no_options (Some []) (Some Blank))
                   [FetchSettles example_response]"
    by (simp add: example_page_def)
  have h1: "scorings (widget ?s1) \<noteq> scorings (widget ?s)" by code_simp
  have h2: "currentQuery (widget ?s1) = ''go''" by code_simp
  have h3: "Destroy \<notin> set [Input ''rust'', KeyDown ''Escape'']" by simp
  have h4: "trim '' go '' = ''go''" by code_simp
  from repeated_query_served_from_cache [OF h0 h1 h2 h3 h4]
  obtain idx rs where i: "searchIndex (widget ?s1) = Some idx"
    and rs: "rs = performSearch (options (widget ?s1)) ''go'' idx"
    and b: "handleSearch_begin (widget ?s2) '' go ''
         = Settled (Inr ()) (displayResults rs ''go'' ((widget ?s2)\<lparr>currentQuery := ''go''\<rparr>))"
    by blast
  have "searchIndex (widget ?s1) = Some example_index" by code_simp
  with i have idx: "idx = example_index" by simp
  have "options (widget ?s1) = mk_options no_options" by code_simp
  with rs idx have "rs = performSearch (mk_options no_options) ''go'' example_index" by simp
  with b have b': "handleSearch_begin (widget ?s2) '' go ''
         = Settled (Inr ())
             (displayResults (performSearch (mk_options no_options) ''go'' example_index) ''go''
                ((widget ?s2)\<lparr>currentQuery := ''go''\<rparr>))"
    by simp
  have n: "scorings (widget ?s2) = 2" by code_simp
  from h1 h2 h3 h4 n b' show ?thesis by (intro conjI)
qed

text \<open>
  Counterexample to C6 as stated: \<open>go\<close> is entered twice while the preload is in
  flight, so both calls miss the cache and wait. When the index has arrived the first
  handler wakes, searches and stores its list; the second handler wakes and, the cache
  being read only before the wait, searches again.
\<close>

theorem waiting_twin_query_scores_again:
  "sleeping (run example_page [Input ''go'', Input ''go'']) = [Search ''go'', Search ''go'']
   \<and> scorings (widget (run example_page
        [Input ''go'', Input ''go'', FetchSettles example_response, TimerFires 0])) = 1
   \<and> searchCache (widget (run example_page
        [Input ''go'', Input ''go'', FetchSettles example_response, TimerFires 0])) ''go''
       = Some (performSearch (mk_options no_options) ''go'' example_index)
   \<and> scorings (widget (run example_page
        [Input ''go'', Input ''go'', FetchSettles example_response, TimerFires 0,
         TimerFires 0])) = 2"
  by code_simp

text \<open>
  Claim C10, as amended. When the loader hands an index to the handler of query \<open>q\<close>:
  if \<open>q\<close> is no longer the current query the handler returns at once, and nothing is
  scored, cached or displayed, so this handler leaves no cache entry for a later entry
  of \<open>q\<close> to be served from; if \<open>q\<close> is still current the search runs, its list is
  stored in the cache under \<open>q\<close> and displayed (the second test of the query, behind
  the cache insertion, always passes).
\<close>

theorem stale_query_dropped_before_search:
  "handleSearch_resume st q (Inr (Some idx)) =
     (Inr (),
      if currentQuery st \<noteq> q then st
      else displayResults (performSearch (options st) q idx) q
             (st\<lparr>searchCache := (searchCache st)(q \<mapsto> performSearch (options st) q idx),
                 scorings := scorings st + 1\<rparr>))"
  by (simp add: handleSearch_resume_def handleSearch_try_def Let_def)

text \<open>
  Counterexample to C10 as stated: \<open>go\<close> is entered, then \<open>rust\<close>, both while the
  preload is in flight. When the index has arrived, the handler of \<open>go\<close> wakes and
  returns, then the handler of \<open>rust\<close> wakes and searches. The cache now has an entry
  for \<open>rust\<close> and none for \<open>go\<close>, and one search was made; entering \<open>go\<close> again
  runs a second search.
\<close>

theorem stale_query_not_cached:
  "sleeping (run example_page [Input ''go'', Input ''rust'']) = [Search ''go'', Search ''rust'']
   \<and> searchCache (widget (run example_page
        [Input ''go'', Input ''rust'', FetchSettles example_response, TimerFires 0,
         TimerFires 0])) ''go'' = None
   \<and> searchCache (widget (run example_page
        [Input ''go'', Input ''rust'', FetchSettles example_response, TimerFires 0,
         TimerFires 0])) ''rust''
       = Some (performSearch (mk_options no_options) ''rust'' example_index)
   \<and> scorings (widget (run example_page
        [Input ''go'', Input ''rust'', FetchSettles example_response, TimerFires 0,
         TimerFires 0])) = 1
   \<and> scorings (widget (run example_page
        [Input ''go'', Input ''rust'', FetchSettles example_response, TimerFires 0,
         TimerFires 0, Input ''go''])) = 2"
  by code_simp

end
